theory Spec2Isabelle
  imports Complex_Main
begin

section \<open>Data model of \<open>dedalus2/data/evaluator.py\<close>\<close>

text \<open>
  Python objects that are mutated in place and shared by reference (handlers, task
  dictionaries, fields) live in stores keyed by object identity. Finite float values are
  modelled by exact rationals; the only non-finite value the module itself introduces is
  \<open>np.inf\<close>, the default of every cadence and of \<open>max_writes\<close>.
\<close>

type_synonym hid = nat
type_synonym tid = nat
type_synonym field = nat

datatype error = ZeroDivisionError | KeyError | AttributeError | ShapeMismatch

datatype 'a or_inf = Fin 'a | Inf

text \<open>
  Modelled from the spec: the operator collaborator (\<open>operators.py\<close> is not part of the
  sources at hand). \<open>attempt\<close> takes the evaluation id and the current layout index of
  every field and returns the resolved output field or \<open>None\<close>; \<open>field_set\<close> is a pure
  function of the tree; \<open>constant_mask\<close> (the attribute \<open>constant\<close>) is the per-axis mask of broadcast axes.
\<close>

record operator =
  field_set :: "field list"
  attempt :: "rat \<Rightarrow> (field \<Rightarrow> int) \<Rightarrow> field option"
  constant_mask :: "bool list"

text \<open>A task dictionary: keys \<open>operator\<close>, \<open>layout\<close>, \<open>name\<close> and, once resolved, \<open>out\<close>.
  A layout object is identified by its index (0 is coefficient space).\<close>

record task =
  operator :: operator
  layout :: int
  name :: string
  out :: "field option"

text \<open>The three classes of handlers differ in what they keep besides the scheduling
  data: a \<open>DictionaryHandler\<close> its dictionary \<open>fields\<close>, a \<open>FileHandler\<close> its counters and
  limits, and a \<open>SystemHandler\<close> the attribute \<open>system\<close>, which exists only once
  \<open>build_system\<close> has been called (the flag says whether it has).\<close>

text \<open>The counters and limits of a \<open>FileHandler\<close>. The current path is determined by the
  base path, the file number and the rank, so it is represented by the file number it
  was built from. \<open>written\<close> is the \<open>writes\<close> attribute of each container created so far.\<close>

record file_handler =
  max_writes :: "int or_inf"
  max_size :: int
  parallel :: bool
  file_num :: nat
  current_path :: "nat option"
  total_write_num :: nat
  file_write_num :: nat
  written :: "nat \<rightharpoonup> nat"

datatype sink =
    DictionaryHandler "string \<rightharpoonup> field"
  | SystemHandler bool
  | FileHandler file_handler

record handler =
  group :: "string option"
  wall_dt :: "rat or_inf"
  sim_dt :: "rat or_inf"
  iter :: "int or_inf"
  tasks :: "tid list"
  last_wall_div :: int
  last_sim_div :: int
  last_iter_div :: int
  sink :: sink

record state =
  handlers :: "hid list"
  groups :: "string \<Rightarrow> hid list"
  hstore :: "hid \<Rightarrow> handler"
  tstore :: "tid \<Rightarrow> task"
  layouts :: "field \<Rightarrow> int"
  grid_layout_index :: int

text \<open>
  \<open>handlers\<close> and \<open>groups\<close> are the evaluator's registry (\<open>groups\<close> is a
  \<open>defaultdict(list)\<close>: an unknown name reads as the empty list). \<open>hstore\<close>, \<open>tstore\<close>
  and \<open>layouts\<close> are the stores of handler objects, task dictionaries and the current
  layout index of every field; \<open>grid_layout_index\<close> is
  \<open>domain.distributor.grid_layout.index\<close>.
\<close>

text \<open>\<open>Handler.__init__\<close>: the cadences default to \<open>np.inf\<close>, the divisors start at -1.\<close>

definition Handler_init :: "string option \<Rightarrow> rat or_inf \<Rightarrow> rat or_inf \<Rightarrow> int or_inf \<Rightarrow> sink \<Rightarrow> handler" where
  "Handler_init g wdt sdt it snk =
     \<lparr>group = g, wall_dt = wdt, sim_dt = sdt, iter = it, tasks = [],
      last_wall_div = -1, last_sim_div = -1, last_iter_div = -1, sink = snk\<rparr>"

definition default_handler :: "sink \<Rightarrow> handler" where
  "default_handler snk = Handler_init None Inf Inf Inf snk"

section \<open>Scheduling\<close>

text \<open>Python's \<open>x // y\<close> on floats: division by zero raises, and a finite \<open>x\<close> divided by
  \<open>inf\<close> gives \<open>0.0\<close> when \<open>x\<close> is not negative and \<open>-1.0\<close> otherwise.\<close>

fun float_floordiv :: "rat \<Rightarrow> rat or_inf \<Rightarrow> error + int" where
  "float_floordiv x (Fin d) = (if d = 0 then Inl ZeroDivisionError else Inr \<lfloor>x / d\<rfloor>)"
| "float_floordiv x Inf = Inr (if 0 \<le> x then 0 else -1)"

fun int_floordiv :: "int \<Rightarrow> int or_inf \<Rightarrow> error + int" where
  "int_floordiv n (Fin d) = (if d = 0 then Inl ZeroDivisionError else Inr (n div d))"
| "int_floordiv n Inf = Inr (if 0 \<le> n then 0 else -1)"

text \<open>The three cadence divisors of a handler, in the order the loop body computes them.\<close>

definition divisors :: "handler \<Rightarrow> rat \<Rightarrow> rat \<Rightarrow> int \<Rightarrow> error + (int \<times> int \<times> int)" where
  "divisors h wall_time sim_time iteration =
     (case float_floordiv wall_time (wall_dt h) of
        Inl e \<Rightarrow> Inl e
      | Inr wall_div \<Rightarrow>
          (case float_floordiv sim_time (sim_dt h) of
             Inl e \<Rightarrow> Inl e
           | Inr sim_div \<Rightarrow>
               (case int_floordiv iteration (iter h) of
                  Inl e \<Rightarrow> Inl e
                | Inr iter_div \<Rightarrow> Inr (wall_div, sim_div, iter_div))))"

definition any_up :: "handler \<Rightarrow> int \<times> int \<times> int \<Rightarrow> bool" where
  "any_up h d =
     (case d of (wall_div, sim_div, iter_div) \<Rightarrow>
        wall_div > last_wall_div h \<or> sim_div > last_sim_div h \<or> iter_div > last_iter_div h)"

definition update_divisors :: "handler \<Rightarrow> int \<times> int \<times> int \<Rightarrow> handler" where
  "update_divisors h d =
     (case d of (wall_div, sim_div, iter_div) \<Rightarrow>
        h\<lparr>last_wall_div := wall_div, last_sim_div := sim_div, last_iter_div := iter_div\<rparr>)"

text \<open>One pass of the loop body of \<open>evaluate_scheduled\<close> for the handler \<open>h\<close>; the
  accumulator is the list \<open>scheduled_handlers\<close> and the handler store.\<close>

definition schedule_one ::
  "rat \<Rightarrow> rat \<Rightarrow> int \<Rightarrow> hid \<Rightarrow> hid list \<times> (hid \<Rightarrow> handler) \<Rightarrow> error + (hid list \<times> (hid \<Rightarrow> handler))" where
  "schedule_one wall_time sim_time iteration h acc =
     (case acc of (scheduled, hs) \<Rightarrow>
        (case divisors (hs h) wall_time sim_time iteration of
           Inl e \<Rightarrow> Inl e
         | Inr d \<Rightarrow>
             if any_up (hs h) d
             then Inr (scheduled @ [h], hs(h := update_divisors (hs h) d))
             else Inr (scheduled, hs)))"

fun schedule_loop ::
  "rat \<Rightarrow> rat \<Rightarrow> int \<Rightarrow> hid list \<Rightarrow> hid list \<times> (hid \<Rightarrow> handler) \<Rightarrow> error + (hid list \<times> (hid \<Rightarrow> handler))" where
  "schedule_loop w s i [] acc = Inr acc"
| "schedule_loop w s i (h # rest) acc =
     (case schedule_one w s i h acc of
        Inl e \<Rightarrow> Inl e
      | Inr acc' \<Rightarrow> schedule_loop w s i rest acc')"

text \<open>The selection phase of \<open>evaluate_scheduled\<close> (everything before the final call of
  \<open>evaluate_handlers\<close>): the scheduled handlers and the state with the updated divisors.\<close>

definition select_scheduled :: "rat \<Rightarrow> rat \<Rightarrow> int \<Rightarrow> state \<Rightarrow> error + (hid list \<times> state)" where
  "select_scheduled wall_time sim_time iteration st =
     (case schedule_loop wall_time sim_time iteration (handlers st) ([], hstore st) of
        Inl e \<Rightarrow> Inl e
      | Inr (scheduled, hs) \<Rightarrow> Inr (scheduled, st\<lparr>hstore := hs\<rparr>))"

text \<open>\<open>add_handler\<close>, for a handler object already allocated in the store.\<close>

definition add_handler :: "hid \<Rightarrow> state \<Rightarrow> state" where
  "add_handler h st =
     (let st1 = st\<lparr>handlers := handlers st @ [h]\<rparr>
      in case group (hstore st h) of
           None \<Rightarrow> st1
         | Some g \<Rightarrow> st1\<lparr>groups := (groups st1)(g := groups st1 g @ [h])\<rparr>)"

section \<open>Layout oscillation\<close>

text \<open>
  Modelled from the spec: the field collaborator (\<open>field.py\<close> is not part of the sources
  at hand). Layouts are totally ordered by an integer index, from coefficient space
  (index 0) to grid space (index \<open>Lmax\<close>); \<open>towards_grid_space\<close> and
  \<open>towards_coeff_space\<close> move a field by one index, \<open>require_coeff_space\<close> and
  \<open>require_layout\<close> put it at index 0 and at the requested index.
\<close>

definition require_coeff_space :: "field \<Rightarrow> (field \<Rightarrow> int) \<Rightarrow> (field \<Rightarrow> int)" where
  "require_coeff_space f lay = lay(f := 0)"

definition towards_grid_space :: "field \<Rightarrow> (field \<Rightarrow> int) \<Rightarrow> (field \<Rightarrow> int)" where
  "towards_grid_space f lay = lay(f := lay f + 1)"

definition towards_coeff_space :: "field \<Rightarrow> (field \<Rightarrow> int) \<Rightarrow> (field \<Rightarrow> int)" where
  "towards_coeff_space f lay = lay(f := lay f - 1)"

definition require_layout :: "field \<Rightarrow> int \<Rightarrow> (field \<Rightarrow> int) \<Rightarrow> (field \<Rightarrow> int)" where
  "require_layout f l lay = lay(f := l)"

text \<open>\<open>OrderedSet.update\<close>: every new element is appended, a known one is skipped.\<close>

definition ordered_add :: "field list \<Rightarrow> field \<Rightarrow> field list" where
  "ordered_add fs f = (if f \<in> set fs then fs else fs @ [f])"

definition get_fields :: "(tid \<Rightarrow> task) \<Rightarrow> tid list \<Rightarrow> field list" where
  "get_fields ts tsks =
     foldl (\<lambda>fields t. foldl ordered_add fields (field_set (operator (ts t)))) [] tsks"

text \<open>\<open>attempt_tasks\<close>: the unfinished tasks, in order; a finished task gets its \<open>out\<close>.\<close>

fun attempt_tasks :: "rat \<Rightarrow> tid list \<Rightarrow> state \<Rightarrow> tid list \<times> state" where
  "attempt_tasks ident [] st = ([], st)"
| "attempt_tasks ident (t # rest) st =
     (case attempt (operator (tstore st t)) ident (layouts st) of
        None \<Rightarrow>
          (case attempt_tasks ident rest st of (unfinished, st') \<Rightarrow> (t # unfinished, st'))
      | Some output \<Rightarrow>
          attempt_tasks ident rest
            (st\<lparr>tstore := (tstore st)(t := (tstore st t)\<lparr>out := Some output\<rparr>)\<rparr>))"

text \<open>The variables of the oscillation loop: \<open>L\<close>, \<open>dL\<close>, \<open>tasks\<close> and the stores.\<close>

type_synonym conf = "int \<times> int \<times> tid list \<times> state"

definition conf_L :: "conf \<Rightarrow> int" where
  "conf_L c = fst c"

definition conf_dL :: "conf \<Rightarrow> int" where
  "conf_dL c = fst (snd c)"

definition conf_tasks :: "conf \<Rightarrow> tid list" where
  "conf_tasks c = fst (snd (snd c))"

definition conf_state :: "conf \<Rightarrow> state" where
  "conf_state c = snd (snd (snd c))"

text \<open>One pass through the body of \<open>while tasks:\<close>.\<close>

definition osc_body :: "rat \<Rightarrow> conf \<Rightarrow> conf" where
  "osc_body sim_time c =
     (case c of (L, dL, tsks, st) \<Rightarrow>
        (let dL' = (if L = 0 then 1 else if L = grid_layout_index st then -1 else dL);
             fields = get_fields (tstore st) tsks;
             st1 = st\<lparr>layouts :=
                      fold (\<lambda>f. if dL' > 0 then towards_grid_space f else towards_coeff_space f)
                        fields (layouts st)\<rparr>;
             L' = L + dL'
         in case attempt_tasks sim_time tsks st1 of
              (tsks', st2) \<Rightarrow> (L', dL', tsks', st2)))"

text \<open>The loop itself. It has no bound: \<open>None\<close> is the run that never leaves it.\<close>

partial_function (option) oscillate :: "rat \<Rightarrow> conf \<Rightarrow> state option" where
  "oscillate sim_time c =
     (if conf_tasks c = [] then Some (conf_state c)
      else oscillate sim_time (osc_body sim_time c))"

text \<open>The first \<open>k\<close> passes of the loop, stopping early when no task is left.\<close>

fun osc_run :: "rat \<Rightarrow> nat \<Rightarrow> conf \<Rightarrow> conf" where
  "osc_run sim_time 0 c = c"
| "osc_run sim_time (Suc k) c =
     (if conf_tasks c = [] then c else osc_run sim_time k (osc_body sim_time c))"

text \<open>The part of \<open>evaluate_handlers\<close> before the loop: the first attempt in the current
  layouts, the move of all referenced fields to coefficient space and the second attempt.
  \<open>dL\<close> is unbound before the first pass; as \<open>L = 0\<close> there, the first pass binds it to 1
  before reading it.\<close>

definition all_tasks :: "state \<Rightarrow> hid list \<Rightarrow> tid list" where
  "all_tasks st hs = concat (map (\<lambda>h. tasks (hstore st h)) hs)"

definition enter_loop :: "hid list \<Rightarrow> rat \<Rightarrow> state \<Rightarrow> conf" where
  "enter_loop hs sim_time st =
     (case attempt_tasks sim_time (all_tasks st hs) st of
        (tsks1, st1) \<Rightarrow>
          (let fields = get_fields (tstore st1) tsks1;
               st2 = st1\<lparr>layouts := fold require_coeff_space fields (layouts st1)\<rparr>
           in case attempt_tasks sim_time tsks1 st2 of
                (tsks2, st3) \<Rightarrow> (0, 1, tsks2, st3)))"

text \<open>The post-pass: every task's \<open>out\<close> goes to coefficient space. Reading a missing
  \<open>out\<close> key raises.\<close>

fun dealias_tasks :: "tid list \<Rightarrow> state \<Rightarrow> error + state" where
  "dealias_tasks [] st = Inr st"
| "dealias_tasks (t # rest) st =
     (case out (tstore st t) of
        None \<Rightarrow> Inl KeyError
      | Some f \<Rightarrow> dealias_tasks rest (st\<lparr>layouts := require_coeff_space f (layouts st)\<rparr>))"

fun dealias_handlers :: "hid list \<Rightarrow> state \<Rightarrow> error + state" where
  "dealias_handlers [] st = Inr st"
| "dealias_handlers (h # rest) st =
     (case dealias_tasks (tasks (hstore st h)) st of
        Inl e \<Rightarrow> Inl e
      | Inr st' \<Rightarrow> dealias_handlers rest st')"

text \<open>\<open>evaluate_handlers\<close> up to and including the post-pass, that is, up to the moment
  the first \<open>process\<close> is called.\<close>

definition resolve_tasks :: "hid list \<Rightarrow> rat \<Rightarrow> state \<Rightarrow> (error + state) option" where
  "resolve_tasks hs sim_time st =
     (case oscillate sim_time (enter_loop hs sim_time st) of
        None \<Rightarrow> None
      | Some st' \<Rightarrow> Some (dealias_handlers hs st'))"

section \<open>The file handler\<close>

text \<open>
  What a \<open>FileHandler\<close> reads from outside during one \<open>process\<close> call: the byte size
  of its current container (\<open>current_path.stat().st_size\<close>) and the size-limit flags
  that the other processes of the group contribute to the \<open>Allreduce\<close> with \<open>MPI.LOR\<close>.
\<close>

type_synonym file_env = "nat \<times> bool list"

text \<open>\<open>n % max_writes == 0\<close>: a zero modulus raises; modulo \<open>inf\<close> a non-negative
  \<open>n\<close> is left as it is.\<close>

definition write_limit_reached :: "file_handler \<Rightarrow> error + bool" where
  "write_limit_reached fh =
     (case max_writes fh of
        Fin n \<Rightarrow>
          if n = 0 then Inl ZeroDivisionError
          else Inr (int (total_write_num fh) mod n = 0)
      | Inf \<Rightarrow> Inr (total_write_num fh = 0))"

definition check_file_limits :: "file_handler \<Rightarrow> file_env \<Rightarrow> error + bool" where
  "check_file_limits fh env =
     (case env of (st_size, peers) \<Rightarrow>
        (case write_limit_reached fh of
           Inl e \<Rightarrow> Inl e
         | Inr write_limit \<Rightarrow>
             (let size_limit = (int st_size \<ge> max_size fh);
                  size_limit' =
                    (if \<not> parallel fh then size_limit \<or> True \<in> set peers else size_limit)
              in Inr (write_limit \<or> size_limit'))))"

text \<open>\<open>new_file\<close> returns the container just created (by its number); \<open>setup_file\<close>
  stores \<open>file_write_num\<close>, which is 0 here, as its \<open>writes\<close> attribute.\<close>

definition new_file :: "file_handler \<Rightarrow> nat \<times> file_handler" where
  "new_file fh =
     (let n = file_num fh + 1
      in (n, fh\<lparr>file_num := n, file_write_num := 0, current_path := Some n,
                written := (written fh)(n \<mapsto> 0)\<rparr>))"

definition get_file :: "file_handler \<Rightarrow> file_env \<Rightarrow> error + (nat \<times> file_handler)" where
  "get_file fh env =
     (case current_path fh of
        None \<Rightarrow> Inr (new_file fh)
      | Some path \<Rightarrow>
          (case check_file_limits fh env of
             Inl e \<Rightarrow> Inl e
           | Inr limit \<Rightarrow> if limit then Inr (new_file fh) else Inr (path, fh)))"

text \<open>The head of \<open>FileHandler.process\<close>: the container to write to, the two counters and
  the \<open>writes\<close> attribute. The result carries the container used by this call.\<close>

definition process_counters :: "file_handler \<Rightarrow> file_env \<Rightarrow> error + (nat \<times> file_handler)" where
  "process_counters fh env =
     (case get_file fh env of
        Inl e \<Rightarrow> Inl e
      | Inr (file, fh1) \<Rightarrow>
          (let fh2 = fh1\<lparr>total_write_num := total_write_num fh1 + 1,
                          file_write_num := file_write_num fh1 + 1\<rparr>
           in Inr (file, fh2\<lparr>written := (written fh2)(file \<mapsto> file_write_num fh2)\<rparr>)))"

text \<open>Successive \<open>process\<close> calls of one file handler, each with what it reads from
  outside; the result lists the container each call wrote to.\<close>

fun process_run :: "file_handler \<Rightarrow> file_env list \<Rightarrow> error + (nat list \<times> file_handler)" where
  "process_run fh [] = Inr ([], fh)"
| "process_run fh (env # envs) =
     (case process_counters fh env of
        Inl e \<Rightarrow> Inl e
      | Inr (file, fh') \<Rightarrow>
          (case process_run fh' envs of
             Inl e \<Rightarrow> Inl e
           | Inr (files, fh'') \<Rightarrow> Inr (file # files, fh'')))"

text \<open>\<open>FileHandler.__init__\<close>, the counters and limits.\<close>

definition FileHandler_init :: "int or_inf \<Rightarrow> int \<Rightarrow> bool \<Rightarrow> file_handler" where
  "FileHandler_init mw ms par =
     \<lparr>max_writes = mw, max_size = ms, parallel = par, file_num = 0, current_path = None,
      total_write_num = 0, file_write_num = 0, written = Map.empty\<rparr>"

text \<open>A process group in independent mode: every process has its own handler object
  and its own container. The flag a process contributes to the reduction is its local
  size test; process \<open>i\<close> receives the flags of all the others.\<close>

definition local_size_limit :: "file_handler \<times> nat \<Rightarrow> bool" where
  "local_size_limit p = (int (snd p) \<ge> max_size (fst p))"

definition peer_flags :: "(file_handler \<times> nat) list \<Rightarrow> nat \<Rightarrow> bool list" where
  "peer_flags ps i = map local_size_limit (take i ps @ drop (Suc i) ps)"

definition group_process :: "(file_handler \<times> nat) list \<Rightarrow> (error + (nat \<times> file_handler)) list" where
  "group_process ps =
     map (\<lambda>i. process_counters (fst (ps ! i)) (snd (ps ! i), peer_flags ps i)) [0..<length ps]"

text \<open>\<open>a[mask] = v\<close> on arrays of equal length.\<close>

definition mask_assign :: "bool list \<Rightarrow> int \<Rightarrow> int list \<Rightarrow> int list" where
  "mask_assign msk v a = map (\<lambda>(m, x). if m then v else x) (zip msk a)"

record layout_info =
  global_shape :: "int list"
  shape :: "int list"
  start :: "int list"

record write_stats =
  global_nc_shape :: "int list"
  global_nc_start :: "int list"
  write_shape :: "int list"
  write_start :: "int list"
  write_count :: "int list"

text \<open>\<open>get_write_stats\<close>. The three arrays of a layout and the mask have one entry per
  axis; numpy rejects a mask of another length.\<close>

definition get_write_stats :: "bool \<Rightarrow> layout_info \<Rightarrow> bool list \<Rightarrow> error + write_stats" where
  "get_write_stats par lay const =
     (let gshape = global_shape lay;
          lshape = shape lay;
          strt = start lay
      in if length lshape \<noteq> length gshape \<or> length strt \<noteq> length gshape
            \<or> length const \<noteq> length gshape
         then Inl ShapeMismatch
         else
           (let first = map (\<lambda>s. s = 0) strt;
                const_first = map (\<lambda>(c, f). c \<and> f) (zip const first);
                const_not_first = map (\<lambda>(c, f). c \<and> \<not> f) (zip const first);
                wcount = mask_assign const_not_first 0 (mask_assign const_first 1 lshape);
                gnc_shape = mask_assign const 1 gshape;
                gnc_start = mask_assign const_not_first 1 strt
            in Inr \<lparr>global_nc_shape = gnc_shape, global_nc_start = gnc_start,
                    write_shape = (if par then gnc_shape else wcount),
                    write_start = (if par then gnc_start else map (\<lambda>s. 0 * s) strt),
                    write_count = wcount\<rparr>))"

section \<open>Processing and the entry points\<close>

text \<open>The task loop of \<open>DictionaryHandler.process\<close>.\<close>

fun dictionary_tasks :: "tid list \<Rightarrow> (string \<rightharpoonup> field) \<Rightarrow> state \<Rightarrow> error + ((string \<rightharpoonup> field) \<times> state)" where
  "dictionary_tasks [] d st = Inr (d, st)"
| "dictionary_tasks (t # rest) d st =
     (case out (tstore st t) of
        None \<Rightarrow> Inl KeyError
      | Some f \<Rightarrow>
          dictionary_tasks rest (d(name (tstore st t) \<mapsto> f))
            (st\<lparr>layouts := require_layout f (layout (tstore st t)) (layouts st)\<rparr>))"

text \<open>The task loop of \<open>FileHandler.process\<close>; the hyperslab write itself belongs to the
  storage layer.\<close>

fun file_tasks :: "tid list \<Rightarrow> state \<Rightarrow> error + state" where
  "file_tasks [] st = Inr st"
| "file_tasks (t # rest) st =
     (case out (tstore st t) of
        None \<Rightarrow> Inl KeyError
      | Some f \<Rightarrow>
          file_tasks rest (st\<lparr>layouts := require_layout f (layout (tstore st t)) (layouts st)\<rparr>))"

text \<open>
  Modelled from the spec: \<open>FieldSystem.gather\<close> (\<open>system.py\<close> is not part of the sources
  at hand). The spec only says that this sink gathers the resolved outputs into a flat
  vector; what that does to the layouts of the fields, and whether it raises, is left
  open. So \<open>gather\<close> is a parameter: for each handler, a function from the layouts of all
  fields to an error or the layouts afterwards. \<open>containers\<close> is what the file handlers
  read from outside during the call.
\<close>

record world =
  containers :: "hid \<Rightarrow> file_env"
  gather :: "hid \<Rightarrow> (field \<Rightarrow> int) \<Rightarrow> error + (field \<Rightarrow> int)"

text \<open>\<open>handler.process\<close>, dispatched on the class of the handler. \<open>SystemHandler.process\<close>
  only calls \<open>self.system.gather()\<close>; reading \<open>self.system\<close> raises when \<open>build_system\<close>
  was never called.\<close>

definition process :: "world \<Rightarrow> hid \<Rightarrow> state \<Rightarrow> error + state" where
  "process env h st =
     (case sink (hstore st h) of
        DictionaryHandler d \<Rightarrow>
          (case dictionary_tasks (tasks (hstore st h)) d st of
             Inl e \<Rightarrow> Inl e
           | Inr (d', st') \<Rightarrow>
               Inr (st'\<lparr>hstore := (hstore st')(h := (hstore st' h)\<lparr>sink := DictionaryHandler d'\<rparr>)\<rparr>))
      | SystemHandler built \<Rightarrow>
          if \<not> built then Inl AttributeError
          else (case gather env h (layouts st) of
                  Inl e \<Rightarrow> Inl e
                | Inr lay \<Rightarrow> Inr (st\<lparr>layouts := lay\<rparr>))
      | FileHandler fh \<Rightarrow>
          (case process_counters fh (containers env h) of
             Inl e \<Rightarrow> Inl e
           | Inr (file, fh') \<Rightarrow>
               file_tasks (tasks (hstore st h))
                 (st\<lparr>hstore := (hstore st)(h := (hstore st h)\<lparr>sink := FileHandler fh'\<rparr>)\<rparr>)))"

fun process_handlers :: "world \<Rightarrow> hid list \<Rightarrow> state \<Rightarrow> error + state" where
  "process_handlers env [] st = Inr st"
| "process_handlers env (h # rest) st =
     (case process env h st of
        Inl e \<Rightarrow> Inl e
      | Inr st' \<Rightarrow> process_handlers env rest st')"

text \<open>\<open>evaluate_handlers\<close>. \<open>None\<close>: the call does not return; \<open>Some (Inl e)\<close>: it raises.\<close>

definition evaluate_handlers ::
  "world \<Rightarrow> hid list \<Rightarrow> rat \<Rightarrow> rat \<Rightarrow> int \<Rightarrow> state \<Rightarrow> (error + state) option" where
  "evaluate_handlers env hs wall_time sim_time iteration st =
     (case resolve_tasks hs sim_time st of
        None \<Rightarrow> None
      | Some (Inl e) \<Rightarrow> Some (Inl e)
      | Some (Inr st') \<Rightarrow> Some (process_handlers env hs st'))"


definition evaluate_scheduled ::
  "world \<Rightarrow> rat \<Rightarrow> rat \<Rightarrow> int \<Rightarrow> state \<Rightarrow> (error + state) option" where
  "evaluate_scheduled env wall_time sim_time iteration st =
     (case select_scheduled wall_time sim_time iteration st of
        Inl e \<Rightarrow> Some (Inl e)
      | Inr (scheduled, st') \<Rightarrow>
          evaluate_handlers env scheduled wall_time sim_time iteration st')"

section \<open>Auxiliary notions for the statements\<close>

text \<open>Whether a handler is due at a call, and the handler after it has fired there.\<close>

definition due :: "handler \<Rightarrow> rat \<Rightarrow> rat \<Rightarrow> int \<Rightarrow> bool" where
  "due h w s i = (case divisors h w s i of Inl e \<Rightarrow> False | Inr d \<Rightarrow> any_up h d)"

definition fired :: "handler \<Rightarrow> rat \<Rightarrow> rat \<Rightarrow> int \<Rightarrow> handler" where
  "fired h w s i = (case divisors h w s i of Inl e \<Rightarrow> h | Inr d \<Rightarrow> update_divisors h d)"

text \<open>Small concrete inputs: an operator that never resolves, a task without fields and
  an evaluator with the single handler \<open>h\<close> registered under the identity 0.\<close>

definition stuck_operator :: operator where
  "stuck_operator = \<lparr>field_set = [], attempt = (\<lambda>ident lay. None), constant_mask = []\<rparr>"

definition stuck_task :: task where
  "stuck_task = \<lparr>operator = stuck_operator, layout = 0, name = ''u'', out = None\<rparr>"

definition single_handler_state :: "handler \<Rightarrow> state" where
  "single_handler_state h =
     \<lparr>handlers = [0], groups = (\<lambda>g. []), hstore = (\<lambda>i. h), tstore = (\<lambda>t. stuck_task),
      layouts = (\<lambda>f. 0), grid_layout_index = 1\<rparr>"

text \<open>The result of a task's \<open>attempt\<close> in a state, the fields its operator reads, and
  the property that every field read by a pending task sits at the layout index \<open>L\<close> of
  the loop.\<close>

definition attempt_at :: "rat \<Rightarrow> state \<Rightarrow> tid \<Rightarrow> field option" where
  "attempt_at ident st t = attempt (operator (tstore st t)) ident (layouts st)"

definition task_fields :: "state \<Rightarrow> tid \<Rightarrow> field set" where
  "task_fields st t = set (field_set (operator (tstore st t)))"


text \<open>A task is computable at the layout index \<open>l\<close> when its \<open>attempt\<close> succeeds as soon
  as all the fields it reads are at \<open>l\<close>, and not computable there when it fails in every
  such situation.\<close>

definition computable_at :: "rat \<Rightarrow> state \<Rightarrow> tid \<Rightarrow> int \<Rightarrow> bool" where
  "computable_at ident st t l =
     (\<forall>lay. (\<forall>f \<in> task_fields st t. lay f = l) \<longrightarrow>
        attempt (operator (tstore st t)) ident lay \<noteq> None)"

definition not_computable_at :: "rat \<Rightarrow> state \<Rightarrow> tid \<Rightarrow> int \<Rightarrow> bool" where
  "not_computable_at ident st t l =
     (\<forall>lay. (\<forall>f \<in> task_fields st t. lay f = l) \<longrightarrow>
        attempt (operator (tstore st t)) ident lay = None)"

text \<open>The direction chosen by a pass of the loop and the state after its transforms.\<close>

definition next_dL :: "conf \<Rightarrow> int" where
  "next_dL c =
     (if conf_L c = 0 then 1
      else if conf_L c = grid_layout_index (conf_state c) then -1
      else conf_dL c)"

definition moved_state :: "conf \<Rightarrow> state" where
  "moved_state c =
     (conf_state c)\<lparr>layouts :=
        fold (\<lambda>f. if next_dL c > 0 then towards_grid_space f else towards_coeff_space f)
          (get_fields (tstore (conf_state c)) (conf_tasks c)) (layouts (conf_state c))\<rparr>"

text \<open>The state after the move of all referenced fields to coefficient space, between
  the first and the second attempt.\<close>

definition coeff_state :: "hid list \<Rightarrow> rat \<Rightarrow> state \<Rightarrow> state" where
  "coeff_state hs sim_time st =
     (case attempt_tasks sim_time (all_tasks st hs) st of
        (tsks1, st1) \<Rightarrow>
          st1\<lparr>layouts := fold require_coeff_space (get_fields (tstore st1) tsks1) (layouts st1)\<rparr>)"

text \<open>A task whose operator never resolves, whatever the layouts.\<close>

definition never_resolves :: "state \<Rightarrow> tid \<Rightarrow> bool" where
  "never_resolves st t = (\<forall>ident lay. attempt (operator (tstore st t)) ident lay = None)"

text \<open>More concrete inputs: a world in which every container is empty, no other
  process raises a flag and \<open>gather\<close> leaves the layouts alone, and an evaluator whose
  only handler has the single task 0, which is never computable.\<close>

definition no_files :: world where
  "no_files = \<lparr>containers = (\<lambda>h. (0, [])), gather = (\<lambda>h lay. Inr lay)\<rparr>"

definition stuck_state :: "handler \<Rightarrow> state" where
  "stuck_state h = single_handler_state (h\<lparr>tasks := [0]\<rparr>)"

text \<open>An operator over the single field 0 that is computable in grid space only (layout
  index 2 of 2) and then yields that very field (as a cast of a field does), and an
  evaluator whose only handler, of the given class, has the one task 0 built from it,
  requested in grid space.\<close>

definition grid_operator :: operator where
  "grid_operator =
     \<lparr>field_set = [0], attempt = (\<lambda>ident lay. if lay 0 = 2 then Some 0 else None),
      constant_mask = [False]\<rparr>"

definition grid_task :: task where
  "grid_task = \<lparr>operator = grid_operator, layout = 2, name = ''u'', out = None\<rparr>"

definition grid_state :: "sink \<Rightarrow> state" where
  "grid_state snk =
     \<lparr>handlers = [0], groups = (\<lambda>g. if g = ''checkpoint'' then [0] else []),
      hstore = (\<lambda>i. (Handler_init (Some ''checkpoint'') Inf Inf (Fin 10) snk)\<lparr>tasks := [0]\<rparr>),
      tstore = (\<lambda>t. grid_task), layouts = (\<lambda>f. 0), grid_layout_index = 2\<rparr>"

text \<open>For a task, the layout index of its \<open>out\<close> field and the index requested for
  the task, both read at the moment \<open>evaluate_handlers\<close> starts to call \<open>process\<close>.\<close>

definition out_layout_at_process :: "hid list \<Rightarrow> rat \<Rightarrow> state \<Rightarrow> tid \<Rightarrow> (int \<times> int) option" where
  "out_layout_at_process hs sim_time st t =
     (case resolve_tasks hs sim_time st of
        Some (Inr st') \<Rightarrow>
          (case out (tstore st' t) of
             Some f \<Rightarrow> Some (layouts st' f, layout (tstore st' t))
           | None \<Rightarrow> None)
      | _ \<Rightarrow> None)"

text \<open>Two handler stores that agree on everything but the sinks.\<close>

definition same_cadence :: "(hid \<Rightarrow> handler) \<Rightarrow> (hid \<Rightarrow> handler) \<Rightarrow> bool" where
  "same_cadence a b = (\<forall>h. b h = (a h)\<lparr>sink := sink (b h)\<rparr>)"

text \<open>No two tasks of the list share an output field while asking for different
  layouts.\<close>

definition layouts_agree :: "state \<Rightarrow> tid list \<Rightarrow> bool" where
  "layouts_agree st ts =
     (\<forall>t \<in> set ts. \<forall>u \<in> set ts.
        out (tstore st t) = out (tstore st u) \<longrightarrow> layout (tstore st t) = layout (tstore st u))"

text \<open>Two states of the evaluation of \<open>grid_state\<close>. When the loop ends, the field 0
  has reached grid space (index 2) and is the output of the task; when the handlers are
  about to be processed, the post-pass has brought it back to coefficient space.\<close>

definition ascended_grid_state :: "sink \<Rightarrow> state" where
  "ascended_grid_state snk =
     (grid_state snk)\<lparr>tstore := (\<lambda>t. grid_task)(0 := grid_task\<lparr>out := Some 0\<rparr>),
                       layouts := (\<lambda>f. 0)(0 := 2)\<rparr>"

definition resolved_grid_state :: "sink \<Rightarrow> state" where
  "resolved_grid_state snk = (ascended_grid_state snk)\<lparr>layouts := (\<lambda>f. 0)\<rparr>"

text \<open>The three comparisons of the loop body of \<open>evaluate_scheduled\<close>, one per channel
  (\<open>False\<close> where the division raises).\<close>

definition wall_up :: "handler \<Rightarrow> rat \<Rightarrow> bool" where
  "wall_up h wall_time =
     (case float_floordiv wall_time (wall_dt h) of
        Inl e \<Rightarrow> False
      | Inr wall_div \<Rightarrow> wall_div > last_wall_div h)"

definition sim_up :: "handler \<Rightarrow> rat \<Rightarrow> bool" where
  "sim_up h sim_time =
     (case float_floordiv sim_time (sim_dt h) of
        Inl e \<Rightarrow> False
      | Inr sim_div \<Rightarrow> sim_div > last_sim_div h)"

definition iter_up :: "handler \<Rightarrow> int \<Rightarrow> bool" where
  "iter_up h iteration =
     (case int_floordiv iteration (iter h) of
        Inl e \<Rightarrow> False
      | Inr iter_div \<Rightarrow> iter_div > last_iter_div h)"

text \<open>The list \<open>scheduled_handlers\<close> that a call of \<open>evaluate_scheduled\<close> hands to
  \<open>evaluate_handlers\<close>, and the state it hands over with it.\<close>

definition scheduled_handlers :: "rat \<Rightarrow> rat \<Rightarrow> int \<Rightarrow> state \<Rightarrow> hid list" where
  "scheduled_handlers w s i st =
     (case select_scheduled w s i st of Inl e \<Rightarrow> [] | Inr (scheduled, st') \<Rightarrow> scheduled)"

definition selected_state :: "rat \<Rightarrow> rat \<Rightarrow> int \<Rightarrow> state \<Rightarrow> state" where
  "selected_state w s i st =
     (case select_scheduled w s i st of Inl e \<Rightarrow> st | Inr (scheduled, st') \<Rightarrow> st')"

text \<open>Successive calls of \<open>evaluate_scheduled\<close>, each on the state the previous one left.
  The result lists, call by call, the handlers that were scheduled, together with the
  state before each call; \<open>None\<close> when a call does not return.\<close>

fun evaluate_scheduled_run ::
  "world \<Rightarrow> (rat \<times> rat \<times> int) list \<Rightarrow> state \<Rightarrow> (error + ((state \<times> hid list) list \<times> state)) option" where
  "evaluate_scheduled_run env [] st = Some (Inr ([], st))"
| "evaluate_scheduled_run env ((w, s, i) # calls) st =
     (case evaluate_scheduled env w s i st of
        None \<Rightarrow> None
      | Some (Inl e) \<Rightarrow> Some (Inl e)
      | Some (Inr st') \<Rightarrow>
          (case evaluate_scheduled_run env calls st' of
             None \<Rightarrow> None
           | Some (Inl e) \<Rightarrow> Some (Inl e)
           | Some (Inr (rest, st'')) \<Rightarrow>
               Some (Inr ((st, scheduled_handlers w s i st) # rest, st''))))"





text \<open>The three divisors recorded in a handler object, and the record of a sequence of
  calls of \<open>evaluate_scheduled\<close> as far as the handler \<open>h\<close> is concerned: for each call the
  divisors recorded before it and whether \<open>h\<close> was scheduled, and the divisors recorded
  after the last call.\<close>

definition recorded :: "handler \<Rightarrow> int \<times> int \<times> int" where
  "recorded h = (last_wall_div h, last_sim_div h, last_iter_div h)"

definition firing_log ::
  "hid \<Rightarrow> (error + ((state \<times> hid list) list \<times> state)) option \<Rightarrow>
     (error + (((int \<times> int \<times> int) \<times> bool) list \<times> (int \<times> int \<times> int))) option" where
  "firing_log h r =
     map_option (map_sum id
       (\<lambda>(calls, st). (map (\<lambda>(s, l). (recorded (hstore s h), h \<in> set l)) calls,
                        recorded (hstore st h)))) r"

text \<open>An evaluator all of whose registered handlers are \<open>SystemHandler\<close>s with a built
  system, without tasks and without a zero cadence.\<close>

definition idle_state :: "state \<Rightarrow> bool" where
  "idle_state st =
     (\<forall>h \<in> set (handlers st).
        tasks (hstore st h) = [] \<and> sink (hstore st h) = SystemHandler True \<and>
        wall_dt (hstore st h) \<noteq> Fin 0 \<and> sim_dt (hstore st h) \<noteq> Fin 0 \<and>
        iter (hstore st h) \<noteq> Fin 0)"


section \<open>Scheduling: which handlers fire\<close>

lemma divisors_update [simp]: "divisors (update_divisors h d) w s i = divisors h w s i"
  by (cases d) (simp add: divisors_def update_divisors_def split: sum.splits)

lemma not_due_fired [simp]: "\<not> due (fired h w s i) w s i"
proof (cases "divisors h w s i")
  case (Inl e)
  then show ?thesis by (simp add: due_def fired_def)
next
  case (Inr d)
  then show ?thesis
    by (cases d) (simp add: due_def fired_def, simp add: any_up_def update_divisors_def)
qed

lemma schedule_one_Inr:
  "schedule_one w s i h (sched0, hs) = Inr acc \<Longrightarrow>
     (\<exists>d. divisors (hs h) w s i = Inr d) \<and>
     acc = (if due (hs h) w s i then (sched0 @ [h], hs(h := fired (hs h) w s i)) else (sched0, hs))"
  by (auto simp: schedule_one_def due_def fired_def split: sum.splits if_splits)

lemma schedule_loop_inv:
  "schedule_loop w s i hs (sched0, st0) = Inr (sched, st') \<Longrightarrow>
     (\<forall>h. (h \<in> set sched \<longleftrightarrow> h \<in> set sched0 \<or> (h \<in> set hs \<and> due (st0 h) w s i)) \<and>
          st' h = (if h \<in> set hs \<and> due (st0 h) w s i then fired (st0 h) w s i else st0 h)) \<and>
     (\<forall>h \<in> set hs. \<exists>d. divisors (st0 h) w s i = Inr d)"
proof (induction hs arbitrary: sched0 st0)
  case Nil
  then show ?case by simp
next
  case (Cons x xs)
  from Cons.prems obtain acc where
    one: "schedule_one w s i x (sched0, st0) = Inr acc" and
    rest: "schedule_loop w s i xs acc = Inr (sched, st')"
    by (auto split: sum.splits)
  from schedule_one_Inr[OF one] obtain d where
    d: "divisors (st0 x) w s i = Inr d" and
    acc: "acc = (if due (st0 x) w s i then (sched0 @ [x], st0(x := fired (st0 x) w s i)) else (sched0, st0))"
    by blast
  show ?case
  proof (cases "due (st0 x) w s i")
    case True
    with acc rest have r: "schedule_loop w s i xs (sched0 @ [x], st0(x := fired (st0 x) w s i)) = Inr (sched, st')"
      by simp
    note ih = Cons.IH[OF r]
    let ?st1 = "st0(x := fired (st0 x) w s i)"
    have due1: "\<And>h. due (?st1 h) w s i \<longleftrightarrow> h \<noteq> x \<and> due (st0 h) w s i"
      by simp
    have div1: "\<And>h. divisors (?st1 h) w s i = divisors (st0 h) w s i"
      using d by (simp add: fired_def)
    have a: "\<forall>h. (h \<in> set sched \<longleftrightarrow> h \<in> set sched0 \<or> (h \<in> set (x # xs) \<and> due (st0 h) w s i)) \<and>
          st' h = (if h \<in> set (x # xs) \<and> due (st0 h) w s i then fired (st0 h) w s i else st0 h)"
    proof
      fix h
      from ih have m: "h \<in> set sched \<longleftrightarrow> h \<in> set (sched0 @ [x]) \<or> (h \<in> set xs \<and> due (?st1 h) w s i)"
        and v: "st' h = (if h \<in> set xs \<and> due (?st1 h) w s i then fired (?st1 h) w s i else ?st1 h)"
        by blast+
      show "(h \<in> set sched \<longleftrightarrow> h \<in> set sched0 \<or> (h \<in> set (x # xs) \<and> due (st0 h) w s i)) \<and>
          st' h = (if h \<in> set (x # xs) \<and> due (st0 h) w s i then fired (st0 h) w s i else st0 h)"
      proof (cases "h = x")
        case True
        with m v due1 \<open>due (st0 x) w s i\<close> show ?thesis by simp
      next
        case False
        with m v due1 show ?thesis by simp
      qed
    qed
    have b: "\<forall>h \<in> set (x # xs). \<exists>d. divisors (st0 h) w s i = Inr d"
    proof
      fix h
      assume "h \<in> set (x # xs)"
      then consider "h = x" | "h \<in> set xs" by auto
      then show "\<exists>d. divisors (st0 h) w s i = Inr d"
      proof cases
        case 1
        with d show ?thesis by blast
      next
        case 2
        with ih have "\<exists>d. divisors (?st1 h) w s i = Inr d" by blast
        with div1 show ?thesis by simp
      qed
    qed
    show ?thesis using a b by blast
  next
    case False
    with acc rest have r: "schedule_loop w s i xs (sched0, st0) = Inr (sched, st')"
      by simp
    note ih = Cons.IH[OF r]
    have b: "\<forall>h \<in> set (x # xs). \<exists>d. divisors (st0 h) w s i = Inr d"
      using ih d by (metis set_ConsD)
    have a: "\<forall>h. (h \<in> set sched \<longleftrightarrow> h \<in> set sched0 \<or> (h \<in> set (x # xs) \<and> due (st0 h) w s i)) \<and>
          st' h = (if h \<in> set (x # xs) \<and> due (st0 h) w s i then fired (st0 h) w s i else st0 h)"
      using ih False by auto
    show ?thesis using a b by blast
  qed
qed


lemma select_scheduled_char:
  assumes "select_scheduled w s i st = Inr (sched, st')"
  shows "st' = st\<lparr>hstore := hstore st'\<rparr>"
    and "\<forall>h. (h \<in> set sched \<longleftrightarrow> h \<in> set (handlers st) \<and> due (hstore st h) w s i) \<and>
          hstore st' h = (if h \<in> set (handlers st) \<and> due (hstore st h) w s i
                          then fired (hstore st h) w s i else hstore st h)"
    and "\<forall>h \<in> set (handlers st). \<exists>d. divisors (hstore st h) w s i = Inr d"
proof -
  from assms obtain hs where
    l: "schedule_loop w s i (handlers st) ([], hstore st) = Inr (sched, hs)" and
    s: "st' = st\<lparr>hstore := hs\<rparr>"
    by (auto simp: select_scheduled_def split: sum.splits)
  from s show "st' = st\<lparr>hstore := hstore st'\<rparr>" by simp
  from schedule_loop_inv[OF l] s
  show "\<forall>h. (h \<in> set sched \<longleftrightarrow> h \<in> set (handlers st) \<and> due (hstore st h) w s i) \<and>
          hstore st' h = (if h \<in> set (handlers st) \<and> due (hstore st h) w s i
                          then fired (hstore st h) w s i else hstore st h)"
    by simp
  from schedule_loop_inv[OF l]
  show "\<forall>h \<in> set (handlers st). \<exists>d. divisors (hstore st h) w s i = Inr d" by blast
qed

lemma divisors_Inr_iff:
  "divisors h w s i = Inr (a, b, c) \<longleftrightarrow>
     float_floordiv w (wall_dt h) = Inr a \<and> float_floordiv s (sim_dt h) = Inr b \<and>
     int_floordiv i (iter h) = Inr c"
  by (auto simp: divisors_def split: sum.splits)

lemma fires_iff_general:
  assumes sel: "select_scheduled w s i st = Inr (scheduled, st')" and h: "h \<in> set (handlers st)"
  shows "\<exists>wall_div sim_div iter_div.
           float_floordiv w (wall_dt (hstore st h)) = Inr wall_div \<and>
           float_floordiv s (sim_dt (hstore st h)) = Inr sim_div \<and>
           int_floordiv i (iter (hstore st h)) = Inr iter_div \<and>
           (h \<in> set scheduled \<longleftrightarrow>
              wall_div > last_wall_div (hstore st h) \<or> sim_div > last_sim_div (hstore st h)
              \<or> iter_div > last_iter_div (hstore st h)) \<and>
           (h \<in> set scheduled \<longrightarrow>
              hstore st' h = (hstore st h)\<lparr>last_wall_div := wall_div, last_sim_div := sim_div,
                                           last_iter_div := iter_div\<rparr>) \<and>
           (h \<notin> set scheduled \<longrightarrow> hstore st' h = hstore st h)"
proof -
  from select_scheduled_char(3)[OF sel] h obtain d where d: "divisors (hstore st h) w s i = Inr d"
    by blast
  obtain a b c where abc: "d = (a, b, c)" by (cases d) auto
  from select_scheduled_char(2)[OF sel] h
  have m: "h \<in> set scheduled \<longleftrightarrow> due (hstore st h) w s i"
    and v: "hstore st' h = (if due (hstore st h) w s i then fired (hstore st h) w s i else hstore st h)"
    by simp_all
  have du: "due (hstore st h) w s i \<longleftrightarrow>
      a > last_wall_div (hstore st h) \<or> b > last_sim_div (hstore st h) \<or> c > last_iter_div (hstore st h)"
    using d abc by (simp add: due_def any_up_def)
  have fi: "fired (hstore st h) w s i =
      (hstore st h)\<lparr>last_wall_div := a, last_sim_div := b, last_iter_div := c\<rparr>"
    using d abc by (simp add: fired_def update_divisors_def)
  from d abc have fl: "float_floordiv w (wall_dt (hstore st h)) = Inr a"
      "float_floordiv s (sim_dt (hstore st h)) = Inr b" "int_floordiv i (iter (hstore st h)) = Inr c"
    by (simp_all add: divisors_Inr_iff)
  show ?thesis
    using fl m v du fi by (intro exI[of _ a] exI[of _ b] exI[of _ c]) simp
qed


lemma select_scheduled_handlers:
  "select_scheduled w s i st = Inr (l, st') \<Longrightarrow> handlers st' = handlers st"
  by (auto simp: select_scheduled_def split: sum.splits)

lemma unit_sim_step:
  assumes sel: "select_scheduled w s i st = Inr (l, st')" and h: "h \<in> set (handlers st)"
    and c: "wall_dt (hstore st h) = Inf" "sim_dt (hstore st h) = Fin 1" "iter (hstore st h) = Inf"
    and nn: "0 \<le> w" "0 \<le> i"
    and la: "last_wall_div (hstore st h) = a" "last_sim_div (hstore st h) = b"
            "last_iter_div (hstore st h) = c"
  shows "h \<in> set (handlers st') \<and> wall_dt (hstore st' h) = Inf \<and> sim_dt (hstore st' h) = Fin 1
           \<and> iter (hstore st' h) = Inf"
    and "h \<in> set l \<longleftrightarrow> 0 > a \<or> \<lfloor>s\<rfloor> > b \<or> 0 > c"
    and "last_wall_div (hstore st' h) = (if h \<in> set l then 0 else a)"
    and "last_sim_div (hstore st' h) = (if h \<in> set l then \<lfloor>s\<rfloor> else b)"
    and "last_iter_div (hstore st' h) = (if h \<in> set l then 0 else c)"
proof -
  from fires_iff_general[OF sel h] obtain wd sd idv where
    f: "float_floordiv w (wall_dt (hstore st h)) = Inr wd"
       "float_floordiv s (sim_dt (hstore st h)) = Inr sd"
       "int_floordiv i (iter (hstore st h)) = Inr idv" and
    m: "h \<in> set l \<longleftrightarrow> wd > last_wall_div (hstore st h) \<or> sd > last_sim_div (hstore st h)
              \<or> idv > last_iter_div (hstore st h)" and
    v1: "h \<in> set l \<longrightarrow> hstore st' h = (hstore st h)\<lparr>last_wall_div := wd, last_sim_div := sd,
                                           last_iter_div := idv\<rparr>" and
    v2: "h \<notin> set l \<longrightarrow> hstore st' h = hstore st h"
    by blast
  from f c nn have e: "wd = 0" "sd = \<lfloor>s\<rfloor>" "idv = 0" by simp_all
  from select_scheduled_handlers[OF sel] h have "h \<in> set (handlers st')" by simp
  moreover from v1 v2 c have "wall_dt (hstore st' h) = Inf \<and> sim_dt (hstore st' h) = Fin 1
           \<and> iter (hstore st' h) = Inf" by (cases "h \<in> set l") simp_all
  ultimately show "h \<in> set (handlers st') \<and> wall_dt (hstore st' h) = Inf \<and> sim_dt (hstore st' h) = Fin 1
           \<and> iter (hstore st' h) = Inf" by simp
  from m e la show "h \<in> set l \<longleftrightarrow> 0 > a \<or> \<lfloor>s\<rfloor> > b \<or> 0 > c" by simp
  from v1 v2 e la show "last_wall_div (hstore st' h) = (if h \<in> set l then 0 else a)"
    by (cases "h \<in> set l") simp_all
  from v1 v2 e la show "last_sim_div (hstore st' h) = (if h \<in> set l then \<lfloor>s\<rfloor> else b)"
    by (cases "h \<in> set l") simp_all
  from v1 v2 e la show "last_iter_div (hstore st' h) = (if h \<in> set l then 0 else c)"
    by (cases "h \<in> set l") simp_all
qed


section \<open>Scheduling: infinite cadences\<close>

lemma inf_step:
  assumes sel: "select_scheduled w s i st = Inr (l, st')" and h: "h \<in> set (handlers st)"
    and c: "wall_dt (hstore st h) = Inf" "sim_dt (hstore st h) = Inf" "iter (hstore st h) = Inf"
    and nn: "0 \<le> w" "0 \<le> s" "0 \<le> i"
  shows "h \<in> set (handlers st') \<and> wall_dt (hstore st' h) = Inf \<and> sim_dt (hstore st' h) = Inf
           \<and> iter (hstore st' h) = Inf"
    and "h \<in> set l \<longleftrightarrow> last_wall_div (hstore st h) < 0 \<or> last_sim_div (hstore st h) < 0
           \<or> last_iter_div (hstore st h) < 0"
    and "h \<in> set l \<Longrightarrow> last_wall_div (hstore st' h) = 0 \<and> last_sim_div (hstore st' h) = 0
           \<and> last_iter_div (hstore st' h) = 0"
    and "h \<notin> set l \<Longrightarrow> hstore st' h = hstore st h"
proof -
  from fires_iff_general[OF sel h] obtain wd sd idv where
    f: "float_floordiv w (wall_dt (hstore st h)) = Inr wd"
       "float_floordiv s (sim_dt (hstore st h)) = Inr sd"
       "int_floordiv i (iter (hstore st h)) = Inr idv" and
    m: "h \<in> set l \<longleftrightarrow> wd > last_wall_div (hstore st h) \<or> sd > last_sim_div (hstore st h)
              \<or> idv > last_iter_div (hstore st h)" and
    v1: "h \<in> set l \<longrightarrow> hstore st' h = (hstore st h)\<lparr>last_wall_div := wd, last_sim_div := sd,
                                           last_iter_div := idv\<rparr>" and
    v2: "h \<notin> set l \<longrightarrow> hstore st' h = hstore st h"
    by blast
  from f c nn have e: "wd = 0" "sd = 0" "idv = 0" by simp_all
  from select_scheduled_handlers[OF sel] h have "h \<in> set (handlers st')" by simp
  moreover from v1 v2 c have "wall_dt (hstore st' h) = Inf \<and> sim_dt (hstore st' h) = Inf
           \<and> iter (hstore st' h) = Inf" by (cases "h \<in> set l") simp_all
  ultimately show "h \<in> set (handlers st') \<and> wall_dt (hstore st' h) = Inf \<and> sim_dt (hstore st' h) = Inf
           \<and> iter (hstore st' h) = Inf" by simp
  from m e show "h \<in> set l \<longleftrightarrow> last_wall_div (hstore st h) < 0 \<or> last_sim_div (hstore st h) < 0
           \<or> last_iter_div (hstore st h) < 0" by simp
  from v1 e show "h \<in> set l \<Longrightarrow> last_wall_div (hstore st' h) = 0 \<and> last_sim_div (hstore st' h) = 0
           \<and> last_iter_div (hstore st' h) = 0" by simp
  from v2 show "h \<notin> set l \<Longrightarrow> hstore st' h = hstore st h" by simp
qed


section \<open>The oscillation loop\<close>

lemma attempt_tasks_char:
  "attempt_tasks ident ts st = (un, st') \<Longrightarrow>
     st' = st\<lparr>tstore := tstore st'\<rparr> \<and>
     un = filter (\<lambda>t. attempt_at ident st t = None) ts \<and>
     (\<forall>t. tstore st' t =
        (if t \<in> set ts
         then (case attempt_at ident st t of
                 None \<Rightarrow> tstore st t
               | Some f \<Rightarrow> (tstore st t)\<lparr>out := Some f\<rparr>)
         else tstore st t))"
proof (induction ts arbitrary: st un st')
  case Nil
  then show ?case by simp
next
  case (Cons x xs)
  show ?case
  proof (cases "attempt_at ident st x")
    case None
    with Cons.prems obtain un' where
      r: "attempt_tasks ident xs st = (un', st')" and u: "un = x # un'"
      by (auto simp: attempt_at_def split: prod.splits)
    from Cons.IH[OF r] None u show ?thesis by auto
  next
    case (Some f)
    let ?st1 = "st\<lparr>tstore := (tstore st)(x := (tstore st x)\<lparr>out := Some f\<rparr>)\<rparr>"
    from Cons.prems Some have r: "attempt_tasks ident xs ?st1 = (un, st')"
      by (simp add: attempt_at_def)
    have same: "\<And>t. attempt_at ident ?st1 t = attempt_at ident st t"
      by (simp add: attempt_at_def)
    note ih = Cons.IH[OF r, unfolded same]
    from ih have a: "st' = st\<lparr>tstore := tstore st'\<rparr>"
      by (metis (no_types, lifting) state.surjective state.update_convs(4))
    from ih Some have b: "un = filter (\<lambda>t. attempt_at ident st t = None) (x # xs)" by simp
    have c: "\<forall>t. tstore st' t =
        (if t \<in> set (x # xs)
         then (case attempt_at ident st t of
                 None \<Rightarrow> tstore st t
               | Some f \<Rightarrow> (tstore st t)\<lparr>out := Some f\<rparr>)
         else tstore st t)"
    proof
      fix t
      from ih have v: "tstore st' t =
        (if t \<in> set xs
         then (case attempt_at ident st t of
                 None \<Rightarrow> tstore ?st1 t
               | Some f \<Rightarrow> (tstore ?st1 t)\<lparr>out := Some f\<rparr>)
         else tstore ?st1 t)" by blast
      show "tstore st' t =
        (if t \<in> set (x # xs)
         then (case attempt_at ident st t of
                 None \<Rightarrow> tstore st t
               | Some f \<Rightarrow> (tstore st t)\<lparr>out := Some f\<rparr>)
         else tstore st t)"
        using v Some by (cases "t = x") (auto split: option.splits)
    qed
    from a b c show ?thesis by blast
  qed
qed

lemma foldl_ordered_add:
  "set (foldl ordered_add fs xs) = set fs \<union> set xs \<and>
   (distinct fs \<longrightarrow> distinct (foldl ordered_add fs xs))"
  by (induction xs arbitrary: fs) (auto simp: ordered_add_def)

lemma get_fields_aux:
  "set (foldl (\<lambda>fields t. foldl ordered_add fields (field_set (operator (ts t)))) fs tsks)
     = set fs \<union> (\<Union>t \<in> set tsks. set (field_set (operator (ts t)))) \<and>
   (distinct fs \<longrightarrow>
      distinct (foldl (\<lambda>fields t. foldl ordered_add fields (field_set (operator (ts t)))) fs tsks))"
proof (induction tsks arbitrary: fs)
  case Nil
  then show ?case by simp
next
  case (Cons x xs)
  show ?case using Cons.IH[of "foldl ordered_add fs (field_set (operator (ts x)))"]
      foldl_ordered_add[of fs "field_set (operator (ts x))"]
    by auto
qed

lemma set_get_fields:
  "set (get_fields ts tsks) = (\<Union>t \<in> set tsks. set (field_set (operator (ts t))))"
  using get_fields_aux[of ts "[]" tsks] by (simp add: get_fields_def)




lemma fold_require_coeff:
  "fold require_coeff_space fs lay f = (if f \<in> set fs then 0 else lay f)"
  by (induction fs arbitrary: lay) (auto simp: require_coeff_space_def)

lemma osc_run_done: "conf_tasks c = [] \<Longrightarrow> osc_run sim k c = c"
  by (cases k) simp_all

lemma osc_run_Suc:
  "osc_run sim (Suc k) c =
     (if conf_tasks (osc_run sim k c) = [] then osc_run sim k c
      else osc_body sim (osc_run sim k c))"
proof (induction k arbitrary: c)
  case 0
  then show ?case by simp
next
  case (Suc k)
  show ?case
  proof (cases "conf_tasks c = []")
    case True
    then show ?thesis by (simp add: osc_run_done)
  next
    case False
    have "osc_run sim (Suc (Suc k)) c = osc_run sim (Suc k) (osc_body sim c)"
      using False by simp
    also have "\<dots> = (if conf_tasks (osc_run sim k (osc_body sim c)) = []
                      then osc_run sim k (osc_body sim c)
                      else osc_body sim (osc_run sim k (osc_body sim c)))"
      by (rule Suc.IH)
    also have "osc_run sim k (osc_body sim c) = osc_run sim (Suc k) c"
      using False by simp
    finally show ?thesis .
  qed
qed

lemma oscillate_run:
  "conf_tasks (osc_run sim k c) = [] \<Longrightarrow> oscillate sim c = Some (conf_state (osc_run sim k c))"
proof (induction k arbitrary: c)
  case 0
  then show ?case by (subst oscillate.simps) simp
next
  case (Suc k)
  show ?case
  proof (cases "conf_tasks c = []")
    case True
    then show ?thesis by (subst oscillate.simps) simp
  next
    case False
    with Suc.prems have "conf_tasks (osc_run sim k (osc_body sim c)) = []" by simp
    from Suc.IH[OF this] False show ?thesis by (subst oscillate.simps) simp
  qed
qed

lemma oscillate_Some_run:
  assumes "oscillate sim0 c0 = Some s0"
  shows "\<exists>k. conf_tasks (osc_run sim0 k c0) = [] \<and> s0 = conf_state (osc_run sim0 k c0)"
proof (rule oscillate.raw_induct[rotated 1, OF assms])
  fix osc :: "rat \<Rightarrow> conf \<Rightarrow> state option" and sim c s
  assume IH: "\<And>sim c s. osc sim c = Some s \<Longrightarrow>
                \<exists>k. conf_tasks (osc_run sim k c) = [] \<and> s = conf_state (osc_run sim k c)"
    and h: "(if conf_tasks c = [] then Some (conf_state c) else osc sim (osc_body sim c)) = Some s"
  show "\<exists>k. conf_tasks (osc_run sim k c) = [] \<and> s = conf_state (osc_run sim k c)"
  proof (cases "conf_tasks c = []")
    case True
    with h have "s = conf_state c" by simp
    with True show ?thesis by (intro exI[of _ 0]) simp
  next
    case False
    with h have "osc sim (osc_body sim c) = Some s" by simp
    from IH[OF this] obtain k where
      "conf_tasks (osc_run sim k (osc_body sim c)) = []"
      "s = conf_state (osc_run sim k (osc_body sim c))" by blast
    with False show ?thesis by (intro exI[of _ "Suc k"]) simp
  qed
qed

lemma oscillate_None_iff:
  "oscillate sim c = None \<longleftrightarrow> (\<forall>k. conf_tasks (osc_run sim k c) \<noteq> [])"
proof
  assume n: "oscillate sim c = None"
  show "\<forall>k. conf_tasks (osc_run sim k c) \<noteq> []"
  proof
    fix k
    show "conf_tasks (osc_run sim k c) \<noteq> []"
      using oscillate_run[of sim k c] n by auto
  qed
next
  assume a: "\<forall>k. conf_tasks (osc_run sim k c) \<noteq> []"
  show "oscillate sim c = None"
  proof (cases "oscillate sim c")
    case None
    then show ?thesis .
  next
    case (Some s)
    from oscillate_Some_run[OF this] a show ?thesis by blast
  qed
qed


lemma attempt_tasks_frame:
  assumes "attempt_tasks ident ts st = (un, st')"
  shows "handlers st' = handlers st" "groups st' = groups st" "hstore st' = hstore st"
    "layouts st' = layouts st" "grid_layout_index st' = grid_layout_index st"
    "operator (tstore st' t) = operator (tstore st t)"
    "layout (tstore st' t) = layout (tstore st t)"
    "name (tstore st' t) = name (tstore st t)"
    "out (tstore st t) \<noteq> None \<Longrightarrow> out (tstore st' t) \<noteq> None"
    "t \<in> set ts \<Longrightarrow> t \<in> set un \<or> out (tstore st' t) \<noteq> None"
    "un = filter (\<lambda>t. attempt_at ident st t = None) ts"
proof -
  note c = attempt_tasks_char[OF assms]
  from c have e: "st' = st\<lparr>tstore := tstore st'\<rparr>" by blast
  show "handlers st' = handlers st" by (subst e) simp
  show "groups st' = groups st" by (subst e) simp
  show "hstore st' = hstore st" by (subst e) simp
  show "layouts st' = layouts st" by (subst e) simp
  show "grid_layout_index st' = grid_layout_index st" by (subst e) simp
  from c have v: "tstore st' t =
        (if t \<in> set ts
         then (case attempt_at ident st t of
                 None \<Rightarrow> tstore st t
               | Some f \<Rightarrow> (tstore st t)\<lparr>out := Some f\<rparr>)
         else tstore st t)" by blast
  show "operator (tstore st' t) = operator (tstore st t)"
    by (subst v) (simp split: option.splits)
  show "layout (tstore st' t) = layout (tstore st t)"
    by (subst v) (simp split: option.splits)
  show "name (tstore st' t) = name (tstore st t)"
    by (subst v) (simp split: option.splits)
  show "out (tstore st t) \<noteq> None \<Longrightarrow> out (tstore st' t) \<noteq> None"
    by (subst v) (simp split: option.splits)
  from c show u: "un = filter (\<lambda>t. attempt_at ident st t = None) ts" by blast
  show "t \<in> set ts \<Longrightarrow> t \<in> set un \<or> out (tstore st' t) \<noteq> None"
    by (subst v, subst u) (simp split: option.splits)
qed

lemma osc_body_eq:
  "osc_body sim c =
     (conf_L c + next_dL c, next_dL c,
      fst (attempt_tasks sim (conf_tasks c) (moved_state c)),
      snd (attempt_tasks sim (conf_tasks c) (moved_state c)))"
  by (cases c)
     (simp add: osc_body_def Let_def conf_L_def conf_dL_def conf_tasks_def conf_state_def
        next_dL_def moved_state_def split: prod.splits)

lemma osc_body_sel:
  "conf_L (osc_body sim c) = conf_L c + next_dL c"
  "conf_dL (osc_body sim c) = next_dL c"
  "conf_tasks (osc_body sim c) = filter (\<lambda>t. attempt_at sim (moved_state c) t = None) (conf_tasks c)"
  "conf_state (osc_body sim c) = snd (attempt_tasks sim (conf_tasks c) (moved_state c))"
proof -
  obtain un st' where a: "attempt_tasks sim (conf_tasks c) (moved_state c) = (un, st')"
    by (cases "attempt_tasks sim (conf_tasks c) (moved_state c)") auto
  show "conf_L (osc_body sim c) = conf_L c + next_dL c" by (simp add: osc_body_eq conf_L_def)
  show "conf_dL (osc_body sim c) = next_dL c" by (simp add: osc_body_eq conf_dL_def)
  show "conf_tasks (osc_body sim c) = filter (\<lambda>t. attempt_at sim (moved_state c) t = None) (conf_tasks c)"
    using attempt_tasks_frame(11)[OF a] a by (simp add: osc_body_eq conf_tasks_def)
  show "conf_state (osc_body sim c) = snd (attempt_tasks sim (conf_tasks c) (moved_state c))"
    by (simp add: osc_body_eq conf_state_def)
qed

lemma moved_state_frame:
  "handlers (moved_state c) = handlers (conf_state c)"
  "groups (moved_state c) = groups (conf_state c)"
  "hstore (moved_state c) = hstore (conf_state c)"
  "tstore (moved_state c) = tstore (conf_state c)"
  "grid_layout_index (moved_state c) = grid_layout_index (conf_state c)"
  by (simp_all add: moved_state_def)


lemma osc_body_frame:
  "handlers (conf_state (osc_body sim c)) = handlers (conf_state c)"
  "groups (conf_state (osc_body sim c)) = groups (conf_state c)"
  "hstore (conf_state (osc_body sim c)) = hstore (conf_state c)"
  "grid_layout_index (conf_state (osc_body sim c)) = grid_layout_index (conf_state c)"
  "layouts (conf_state (osc_body sim c)) = layouts (moved_state c)"
  "operator (tstore (conf_state (osc_body sim c)) t) = operator (tstore (conf_state c) t)"
  "layout (tstore (conf_state (osc_body sim c)) t) = layout (tstore (conf_state c) t)"
  "name (tstore (conf_state (osc_body sim c)) t) = name (tstore (conf_state c) t)"
  "out (tstore (conf_state c) t) \<noteq> None \<Longrightarrow> out (tstore (conf_state (osc_body sim c)) t) \<noteq> None"
  "t \<in> set (conf_tasks c) \<Longrightarrow>
     t \<in> set (conf_tasks (osc_body sim c)) \<or> out (tstore (conf_state (osc_body sim c)) t) \<noteq> None"
proof -
  obtain un st' where a: "attempt_tasks sim (conf_tasks c) (moved_state c) = (un, st')"
    by (cases "attempt_tasks sim (conf_tasks c) (moved_state c)") auto
  note f = attempt_tasks_frame[OF a]
  have s: "conf_state (osc_body sim c) = st'" using a by (simp add: osc_body_sel)
  have u: "conf_tasks (osc_body sim c) = un" using f(11) by (simp add: osc_body_sel)
  show "handlers (conf_state (osc_body sim c)) = handlers (conf_state c)"
    using f(1) s by (simp add: moved_state_frame)
  show "groups (conf_state (osc_body sim c)) = groups (conf_state c)"
    using f(2) s by (simp add: moved_state_frame)
  show "hstore (conf_state (osc_body sim c)) = hstore (conf_state c)"
    using f(3) s by (simp add: moved_state_frame)
  show "grid_layout_index (conf_state (osc_body sim c)) = grid_layout_index (conf_state c)"
    using f(5) s by (simp add: moved_state_frame)
  show "layouts (conf_state (osc_body sim c)) = layouts (moved_state c)"
    using f(4) s by simp
  show "operator (tstore (conf_state (osc_body sim c)) t) = operator (tstore (conf_state c) t)"
    using f(6)[of t] s by (simp add: moved_state_frame)
  show "layout (tstore (conf_state (osc_body sim c)) t) = layout (tstore (conf_state c) t)"
    using f(7)[of t] s by (simp add: moved_state_frame)
  show "name (tstore (conf_state (osc_body sim c)) t) = name (tstore (conf_state c) t)"
    using f(8)[of t] s by (simp add: moved_state_frame)
  show "out (tstore (conf_state c) t) \<noteq> None \<Longrightarrow> out (tstore (conf_state (osc_body sim c)) t) \<noteq> None"
    using f(9)[of t] s by (simp add: moved_state_frame)
  show "t \<in> set (conf_tasks c) \<Longrightarrow>
     t \<in> set (conf_tasks (osc_body sim c)) \<or> out (tstore (conf_state (osc_body sim c)) t) \<noteq> None"
    using f(10)[of t] s u by simp
qed


lemma task_fields_body [simp]:
  "task_fields (conf_state (osc_body sim c)) t = task_fields (conf_state c) t"
  by (simp add: task_fields_def osc_body_frame)

lemma never_resolves_body [simp]:
  "never_resolves (conf_state (osc_body sim c)) t = never_resolves (conf_state c) t"
  by (simp add: never_resolves_def osc_body_frame)

lemma stuck_body:
  assumes "t \<in> set (conf_tasks c)" "never_resolves (conf_state c) t"
  shows "t \<in> set (conf_tasks (osc_body sim c))"
  using assms
  by (simp add: osc_body_sel attempt_at_def moved_state_frame never_resolves_def)

lemma stuck_run:
  assumes "t \<in> set (conf_tasks c)" "never_resolves (conf_state c) t"
  shows "t \<in> set (conf_tasks (osc_run sim k c)) \<and> never_resolves (conf_state (osc_run sim k c)) t"
proof (induction k)
  case 0
  with assms show ?case by simp
next
  case (Suc k)
  then show ?case by (subst (1 2) osc_run_Suc) (auto simp: stuck_body simp del: osc_run.simps)
qed

lemma stuck_oscillate:
  assumes "t \<in> set (conf_tasks c)" "never_resolves (conf_state c) t"
  shows "oscillate sim c = None"
proof -
  have "\<forall>k. conf_tasks (osc_run sim k c) \<noteq> []"
  proof
    fix k
    from stuck_run[OF assms, where sim = sim and k = k]
    show "conf_tasks (osc_run sim k c) \<noteq> []" by auto
  qed
  then show ?thesis by (simp add: oscillate_None_iff)
qed

lemma enter_loop_eq:
  "enter_loop hs sim st =
     (0, 1,
      fst (attempt_tasks sim (fst (attempt_tasks sim (all_tasks st hs) st)) (coeff_state hs sim st)),
      snd (attempt_tasks sim (fst (attempt_tasks sim (all_tasks st hs) st)) (coeff_state hs sim st)))"
  by (simp add: enter_loop_def coeff_state_def Let_def split: prod.splits)

lemma coeff_state_frame:
  "handlers (coeff_state hs sim st) = handlers st"
  "groups (coeff_state hs sim st) = groups st"
  "hstore (coeff_state hs sim st) = hstore st"
  "grid_layout_index (coeff_state hs sim st) = grid_layout_index st"
  "operator (tstore (coeff_state hs sim st) t) = operator (tstore st t)"
  "layout (tstore (coeff_state hs sim st) t) = layout (tstore st t)"
  "name (tstore (coeff_state hs sim st) t) = name (tstore st t)"
  "out (tstore st t) \<noteq> None \<Longrightarrow> out (tstore (coeff_state hs sim st) t) \<noteq> None"
  "t \<in> set (all_tasks st hs) \<Longrightarrow>
     t \<in> set (fst (attempt_tasks sim (all_tasks st hs) st))
     \<or> out (tstore (coeff_state hs sim st) t) \<noteq> None"
  "layouts (coeff_state hs sim st) f =
     (if f \<in> (\<Union>t \<in> set (fst (attempt_tasks sim (all_tasks st hs) st)). task_fields st t)
      then 0 else layouts st f)"
proof -
  obtain un st1 where a: "attempt_tasks sim (all_tasks st hs) st = (un, st1)"
    by (cases "attempt_tasks sim (all_tasks st hs) st") auto
  note f = attempt_tasks_frame[OF a]
  have c: "coeff_state hs sim st =
      st1\<lparr>layouts := fold require_coeff_space (get_fields (tstore st1) un) (layouts st1)\<rparr>"
    using a by (simp add: coeff_state_def)
  show "handlers (coeff_state hs sim st) = handlers st" using f(1) c by simp
  show "groups (coeff_state hs sim st) = groups st" using f(2) c by simp
  show "hstore (coeff_state hs sim st) = hstore st" using f(3) c by simp
  show "grid_layout_index (coeff_state hs sim st) = grid_layout_index st" using f(5) c by simp
  show "operator (tstore (coeff_state hs sim st) t) = operator (tstore st t)"
    using f(6)[of t] c by simp
  show "layout (tstore (coeff_state hs sim st) t) = layout (tstore st t)"
    using f(7)[of t] c by simp
  show "name (tstore (coeff_state hs sim st) t) = name (tstore st t)"
    using f(8)[of t] c by simp
  show "out (tstore st t) \<noteq> None \<Longrightarrow> out (tstore (coeff_state hs sim st) t) \<noteq> None"
    using f(9)[of t] c by simp
  show "t \<in> set (all_tasks st hs) \<Longrightarrow>
     t \<in> set (fst (attempt_tasks sim (all_tasks st hs) st))
     \<or> out (tstore (coeff_state hs sim st) t) \<noteq> None"
    using f(10)[of t] c a by simp
  have tf: "\<And>t. set (field_set (operator (tstore st1 t))) = task_fields st t"
    using f(6) by (simp add: task_fields_def)
  show "layouts (coeff_state hs sim st) f =
     (if f \<in> (\<Union>t \<in> set (fst (attempt_tasks sim (all_tasks st hs) st)). task_fields st t)
      then 0 else layouts st f)"
    using f(4) a by (simp add: c fold_require_coeff set_get_fields tf)
qed

lemma enter_loop_sel:
  "conf_L (enter_loop hs sim st) = 0"
  "conf_dL (enter_loop hs sim st) = 1"
  "conf_tasks (enter_loop hs sim st) =
     filter (\<lambda>t. attempt_at sim (coeff_state hs sim st) t = None)
       (filter (\<lambda>t. attempt_at sim st t = None) (all_tasks st hs))"
  "conf_state (enter_loop hs sim st) =
     snd (attempt_tasks sim (fst (attempt_tasks sim (all_tasks st hs) st)) (coeff_state hs sim st))"
proof -
  obtain un st1 where a: "attempt_tasks sim (all_tasks st hs) st = (un, st1)"
    by (cases "attempt_tasks sim (all_tasks st hs) st") auto
  obtain un2 st3 where b: "attempt_tasks sim un (coeff_state hs sim st) = (un2, st3)"
    by (cases "attempt_tasks sim un (coeff_state hs sim st)") auto
  show "conf_L (enter_loop hs sim st) = 0" by (simp add: enter_loop_eq conf_L_def)
  show "conf_dL (enter_loop hs sim st) = 1" by (simp add: enter_loop_eq conf_dL_def)
  show "conf_tasks (enter_loop hs sim st) =
     filter (\<lambda>t. attempt_at sim (coeff_state hs sim st) t = None)
       (filter (\<lambda>t. attempt_at sim st t = None) (all_tasks st hs))"
    using attempt_tasks_frame(11)[OF a] attempt_tasks_frame(11)[OF b] a b
    by (simp add: enter_loop_eq conf_tasks_def)
  show "conf_state (enter_loop hs sim st) =
     snd (attempt_tasks sim (fst (attempt_tasks sim (all_tasks st hs) st)) (coeff_state hs sim st))"
    by (simp add: enter_loop_eq conf_state_def)
qed

lemma enter_loop_frame:
  "handlers (conf_state (enter_loop hs sim st)) = handlers st"
  "groups (conf_state (enter_loop hs sim st)) = groups st"
  "hstore (conf_state (enter_loop hs sim st)) = hstore st"
  "grid_layout_index (conf_state (enter_loop hs sim st)) = grid_layout_index st"
  "layouts (conf_state (enter_loop hs sim st)) = layouts (coeff_state hs sim st)"
  "operator (tstore (conf_state (enter_loop hs sim st)) t) = operator (tstore st t)"
  "layout (tstore (conf_state (enter_loop hs sim st)) t) = layout (tstore st t)"
  "name (tstore (conf_state (enter_loop hs sim st)) t) = name (tstore st t)"
  "t \<in> set (all_tasks st hs) \<Longrightarrow>
     t \<in> set (conf_tasks (enter_loop hs sim st))
     \<or> out (tstore (conf_state (enter_loop hs sim st)) t) \<noteq> None"
proof -
  obtain un st1 where a: "attempt_tasks sim (all_tasks st hs) st = (un, st1)"
    by (cases "attempt_tasks sim (all_tasks st hs) st") auto
  obtain un2 st3 where b: "attempt_tasks sim un (coeff_state hs sim st) = (un2, st3)"
    by (cases "attempt_tasks sim un (coeff_state hs sim st)") auto
  note f = attempt_tasks_frame[OF b]
  note g = coeff_state_frame[where hs = hs and sim = sim and st = st]
  have s: "conf_state (enter_loop hs sim st) = st3" using a b by (simp add: enter_loop_sel)
  have u: "conf_tasks (enter_loop hs sim st) = un2"
    using attempt_tasks_frame(11)[OF a] f(11) by (simp add: enter_loop_sel)
  show "handlers (conf_state (enter_loop hs sim st)) = handlers st" using f(1) g(1) s by simp
  show "groups (conf_state (enter_loop hs sim st)) = groups st" using f(2) g(2) s by simp
  show "hstore (conf_state (enter_loop hs sim st)) = hstore st" using f(3) g(3) s by simp
  show "grid_layout_index (conf_state (enter_loop hs sim st)) = grid_layout_index st"
    using f(5) g(4) s by simp
  show "layouts (conf_state (enter_loop hs sim st)) = layouts (coeff_state hs sim st)"
    using f(4) s by simp
  show "operator (tstore (conf_state (enter_loop hs sim st)) t) = operator (tstore st t)"
    using f(6)[of t] g(5)[of t] s by simp
  show "layout (tstore (conf_state (enter_loop hs sim st)) t) = layout (tstore st t)"
    using f(7)[of t] g(6)[of t] s by simp
  show "name (tstore (conf_state (enter_loop hs sim st)) t) = name (tstore st t)"
    using f(8)[of t] g(7)[of t] s by simp
  show "t \<in> set (all_tasks st hs) \<Longrightarrow>
     t \<in> set (conf_tasks (enter_loop hs sim st))
     \<or> out (tstore (conf_state (enter_loop hs sim st)) t) \<noteq> None"
    using f(9)[of t] f(10)[of t] g(9)[of t] a s u by auto
qed


lemma all_tasks_mem: "h \<in> set hs \<Longrightarrow> t \<in> set (tasks (hstore st h)) \<Longrightarrow> t \<in> set (all_tasks st hs)"
  by (auto simp: all_tasks_def)

lemma stuck_resolve:
  assumes "h \<in> set hs" "t \<in> set (tasks (hstore st h))" "never_resolves st t"
  shows "resolve_tasks hs sim st = None"
proof -
  from assms(1,2) have a: "t \<in> set (all_tasks st hs)" by (rule all_tasks_mem)
  have n1: "attempt_at sim st t = None"
    using assms(3) by (simp add: never_resolves_def attempt_at_def)
  have n2: "attempt_at sim (coeff_state hs sim st) t = None"
    using assms(3) by (simp add: never_resolves_def attempt_at_def coeff_state_frame)
  from a n1 n2 have p: "t \<in> set (conf_tasks (enter_loop hs sim st))"
    by (simp add: enter_loop_sel)
  have n: "never_resolves (conf_state (enter_loop hs sim st)) t"
    using assms(3) by (simp add: never_resolves_def enter_loop_frame)
  from stuck_oscillate[OF p n] show ?thesis by (simp add: resolve_tasks_def)
qed

text \<open>
  Claim C2, as amended. If a task of one of the handlers has an operator that resolves
  in no layout, \<open>evaluate_handlers\<close> does not return: the loop \<open>while tasks\<close> counts no
  steps and has no bound, the task stays in the list for ever, and nothing is raised.
\<close>

theorem unresolvable_task_never_returns:
  assumes "h \<in> set hs" "t \<in> set (tasks (hstore st h))" "never_resolves st t"
  shows "evaluate_handlers env hs wall_time sim_time iteration st = None"
  using stuck_resolve[OF assms, of sim_time] by (simp add: evaluate_handlers_def)

lemma stuck_state_facts:
  "handlers (stuck_state hh) = [0]" "tasks (hstore (stuck_state hh) 0) = [0]"
  "never_resolves (stuck_state hh) 0"
  by (simp_all add: stuck_state_def single_handler_state_def never_resolves_def stuck_task_def
      stuck_operator_def)

theorem unresolvable_task_never_returns_witness:
  "0 \<in> set [0 :: hid] \<and> 0 \<in> set (tasks (hstore (stuck_state (default_handler (SystemHandler True))) 0)) \<and>
   never_resolves (stuck_state (default_handler (SystemHandler True))) 0 \<and>
   evaluate_handlers no_files [0] 0 0 0 (stuck_state (default_handler (SystemHandler True))) = None"
proof -
  have a: "0 \<in> set [0 :: hid]" by simp
  have b: "0 \<in> set (tasks (hstore (stuck_state (default_handler (SystemHandler True))) 0))"
    by (simp add: stuck_state_facts)
  have c: "never_resolves (stuck_state (default_handler (SystemHandler True))) 0"
    by (rule stuck_state_facts)
  from unresolvable_task_never_returns[OF a b c] a b c show ?thesis by simp
qed

theorem unresolvable_task_loops_without_error:
  "never_resolves (stuck_state (Handler_init None Inf (Fin 1) Inf (DictionaryHandler Map.empty))) 0 \<and>
   evaluate_handlers no_files [0] 3 2 1
     (stuck_state (Handler_init None Inf (Fin 1) Inf (DictionaryHandler Map.empty))) = None"
proof -
  let ?S = "stuck_state (Handler_init None Inf (Fin 1) Inf (DictionaryHandler Map.empty))"
  have b: "0 \<in> set (tasks (hstore ?S 0))" by (simp add: stuck_state_facts)
  have c: "never_resolves ?S 0" by (rule stuck_state_facts)
  have "resolve_tasks [0] 2 ?S = None"
    by (rule stuck_resolve[of 0 "[0]", OF _ b c]) simp
  with c show ?thesis by (simp add: evaluate_handlers_def)
qed


section \<open>Alignment of the pending tasks' fields with the loop index\<close>

lemma computable_at_body [simp]:
  "computable_at sim' (conf_state (osc_body sim c)) t l = computable_at sim' (conf_state c) t l"
  by (simp add: computable_at_def osc_body_frame)

lemma not_computable_at_body [simp]:
  "not_computable_at sim' (conf_state (osc_body sim c)) t l = not_computable_at sim' (conf_state c) t l"
  by (simp add: not_computable_at_def osc_body_frame)

lemma next_dL_cases: "conf_dL c = 1 \<or> conf_dL c = -1 \<Longrightarrow> next_dL c = 1 \<or> next_dL c = -1"
  by (auto simp: next_dL_def)





lemma computable_at_enter [simp]:
  "computable_at sim' (conf_state (enter_loop hs sim st)) t l = computable_at sim' st t l"
  by (simp add: computable_at_def task_fields_def enter_loop_frame)

lemma not_computable_at_enter [simp]:
  "not_computable_at sim' (conf_state (enter_loop hs sim st)) t l = not_computable_at sim' st t l"
  by (simp add: not_computable_at_def task_fields_def enter_loop_frame)






lemma run_frame:
  "grid_layout_index (conf_state (osc_run sim k c)) = grid_layout_index (conf_state c)"
  "hstore (conf_state (osc_run sim k c)) = hstore (conf_state c)"
  "handlers (conf_state (osc_run sim k c)) = handlers (conf_state c)"
  "groups (conf_state (osc_run sim k c)) = groups (conf_state c)"
  "operator (tstore (conf_state (osc_run sim k c)) t) = operator (tstore (conf_state c) t)"
  "layout (tstore (conf_state (osc_run sim k c)) t) = layout (tstore (conf_state c) t)"
  "name (tstore (conf_state (osc_run sim k c)) t) = name (tstore (conf_state c) t)"
  "computable_at sim' (conf_state (osc_run sim k c)) t l = computable_at sim' (conf_state c) t l"
  "not_computable_at sim' (conf_state (osc_run sim k c)) t l
     = not_computable_at sim' (conf_state c) t l"
  by (induction k) (simp_all add: osc_run_Suc osc_body_frame del: osc_run.simps(2))

lemma run_resolved_or_pending:
  assumes "t \<in> set (conf_tasks c) \<or> out (tstore (conf_state c) t) \<noteq> None"
  shows "t \<in> set (conf_tasks (osc_run sim k c))
         \<or> out (tstore (conf_state (osc_run sim k c)) t) \<noteq> None"
proof (induction k)
  case 0
  with assms show ?case by simp
next
  case (Suc k)
  show ?case
  proof (cases "conf_tasks (osc_run sim k c) = []")
    case True
    with Suc show ?thesis by (simp add: osc_run_Suc del: osc_run.simps(2))
  next
    case False
    with Suc osc_body_frame(9,10)[where c = "osc_run sim k c" and t = t and sim = sim]
    show ?thesis by (auto simp: osc_run_Suc simp del: osc_run.simps(2))
  qed
qed









section \<open>The whole oscillation\<close>


















section \<open>The post-pass and the moment of processing\<close>

lemma grid_run_eval:
  "conf_tasks (osc_run sim 2 (enter_loop [0] sim (grid_state snk))) = []"
  "out (tstore (conf_state (osc_run sim 2 (enter_loop [0] sim (grid_state snk)))) 0) = Some 0"
  "layouts (conf_state (osc_run sim 2 (enter_loop [0] sim (grid_state snk)))) 0 = 2"
  by (simp_all add: numeral_2_eq_2 enter_loop_def osc_body_def all_tasks_def grid_state_def grid_task_def grid_operator_def
      Handler_init_def get_fields_def ordered_add_def require_coeff_space_def towards_grid_space_def
      towards_coeff_space_def conf_tasks_def conf_state_def Let_def)


lemma dealias_tasks_char:
  "dealias_tasks ts st = Inr st' \<Longrightarrow>
     st' = st\<lparr>layouts := layouts st'\<rparr> \<and>
     (\<forall>t \<in> set ts. \<exists>f. out (tstore st t) = Some f \<and> layouts st' f = 0) \<and>
     (\<forall>f. layouts st f = 0 \<longrightarrow> layouts st' f = 0)"
proof (induction ts arbitrary: st)
  case Nil
  then show ?case by simp
next
  case (Cons x xs)
  from Cons.prems obtain f where o: "out (tstore st x) = Some f"
    and r: "dealias_tasks xs (st\<lparr>layouts := require_coeff_space f (layouts st)\<rparr>) = Inr st'"
    by (auto split: option.splits)
  let ?st1 = "st\<lparr>layouts := require_coeff_space f (layouts st)\<rparr>"
  note ih = Cons.IH[OF r]
  from ih have e: "st' = ?st1\<lparr>layouts := layouts st'\<rparr>" by blast
  have a: "st' = st\<lparr>layouts := layouts st'\<rparr>" by (subst e) simp
  from ih have z: "\<forall>g. layouts ?st1 g = 0 \<longrightarrow> layouts st' g = 0" by blast
  then have zf: "layouts st' f = 0" by (simp add: require_coeff_space_def)
  have b: "\<forall>t \<in> set (x # xs). \<exists>f. out (tstore st t) = Some f \<and> layouts st' f = 0"
    using ih o zf by auto
  have c: "\<forall>g. layouts st g = 0 \<longrightarrow> layouts st' g = 0"
    using z by (simp add: require_coeff_space_def)
  from a b c show ?case by blast
qed

lemma dealias_tasks_ok:
  "\<forall>t \<in> set ts. out (tstore st t) \<noteq> None \<Longrightarrow> \<exists>st'. dealias_tasks ts st = Inr st'"
  by (induction ts arbitrary: st) (auto split: option.splits)

lemma dealias_handlers_char:
  "dealias_handlers hs st = Inr st' \<Longrightarrow>
     st' = st\<lparr>layouts := layouts st'\<rparr> \<and>
     (\<forall>h \<in> set hs. \<forall>t \<in> set (tasks (hstore st h)).
         \<exists>f. out (tstore st t) = Some f \<and> layouts st' f = 0) \<and>
     (\<forall>f. layouts st f = 0 \<longrightarrow> layouts st' f = 0)"
proof (induction hs arbitrary: st)
  case Nil
  then show ?case by simp
next
  case (Cons x xs)
  from Cons.prems obtain st1 where d: "dealias_tasks (tasks (hstore st x)) st = Inr st1"
    and r: "dealias_handlers xs st1 = Inr st'"
    by (auto split: sum.splits)
  note c = dealias_tasks_char[OF d]
  note ih = Cons.IH[OF r]
  from c have e1: "st1 = st\<lparr>layouts := layouts st1\<rparr>" by blast
  from ih have e2: "st' = st1\<lparr>layouts := layouts st'\<rparr>" by blast
  have hs1: "hstore st1 = hstore st" by (subst e1) simp
  have ts1: "tstore st1 = tstore st" by (subst e1) simp
  have a: "st' = st\<lparr>layouts := layouts st'\<rparr>" by (subst e2, subst e1) simp
  from c ih have z1: "\<And>f. layouts st f = 0 \<Longrightarrow> layouts st' f = 0" by blast
  have b: "\<forall>h \<in> set (x # xs). \<forall>t \<in> set (tasks (hstore st h)).
         \<exists>f. out (tstore st t) = Some f \<and> layouts st' f = 0"
  proof (intro ballI)
    fix h t
    assume h: "h \<in> set (x # xs)" and t: "t \<in> set (tasks (hstore st h))"
    show "\<exists>f. out (tstore st t) = Some f \<and> layouts st' f = 0"
    proof (cases "h = x")
      case True
      with c t obtain f where "out (tstore st t) = Some f" "layouts st1 f = 0" by blast
      moreover from ih this(2) have "layouts st' f = 0" by blast
      ultimately show ?thesis by blast
    next
      case False
      with h have "h \<in> set xs" by simp
      with ih t hs1 ts1 show ?thesis by simp
    qed
  qed
  from a b z1 show ?case by blast
qed

lemma dealias_handlers_ok:
  "\<forall>h \<in> set hs. \<forall>t \<in> set (tasks (hstore st h)). out (tstore st t) \<noteq> None \<Longrightarrow>
     \<exists>st'. dealias_handlers hs st = Inr st'"
proof (induction hs arbitrary: st)
  case Nil
  then show ?case by simp
next
  case (Cons x xs)
  from Cons.prems have "\<forall>t \<in> set (tasks (hstore st x)). out (tstore st t) \<noteq> None" by simp
  from dealias_tasks_ok[OF this] obtain st1 where d: "dealias_tasks (tasks (hstore st x)) st = Inr st1"
    by blast
  from dealias_tasks_char[OF d] have e1: "st1 = st\<lparr>layouts := layouts st1\<rparr>" by blast
  have hs1: "hstore st1 = hstore st" by (subst e1) simp
  have ts1: "tstore st1 = tstore st" by (subst e1) simp
  from Cons.prems hs1 ts1
  have "\<forall>h \<in> set xs. \<forall>t \<in> set (tasks (hstore st1 h)). out (tstore st1 t) \<noteq> None" by simp
  from Cons.IH[OF this] d show ?case by simp
qed

lemma all_tasks_iff: "t \<in> set (all_tasks st hs) \<longleftrightarrow> (\<exists>h \<in> set hs. t \<in> set (tasks (hstore st h)))"
  by (auto simp: all_tasks_def)

lemma resolve_tasks_char:
  assumes "resolve_tasks hs sim st = Some r"
  shows "\<exists>st'. r = Inr st' \<and>
           handlers st' = handlers st \<and> groups st' = groups st \<and> hstore st' = hstore st \<and>
           grid_layout_index st' = grid_layout_index st \<and>
           (\<forall>t. layout (tstore st' t) = layout (tstore st t) \<and>
                name (tstore st' t) = name (tstore st t) \<and>
                operator (tstore st' t) = operator (tstore st t)) \<and>
           (\<forall>h \<in> set hs. \<forall>t \<in> set (tasks (hstore st h)).
               \<exists>f. out (tstore st' t) = Some f \<and> layouts st' f = 0)"
proof -
  let ?c0 = "enter_loop hs sim st"
  from assms obtain s where os: "oscillate sim ?c0 = Some s" and r: "r = dealias_handlers hs s"
    by (auto simp: resolve_tasks_def split: option.splits)
  from oscillate_Some_run[OF os] obtain k where
    e: "conf_tasks (osc_run sim k ?c0) = []" and s: "s = conf_state (osc_run sim k ?c0)" by blast
  have fr: "handlers s = handlers st" "groups s = groups st" "hstore s = hstore st"
    "grid_layout_index s = grid_layout_index st"
    by (simp_all add: s run_frame enter_loop_frame)
  have ft: "\<And>t. layout (tstore s t) = layout (tstore st t) \<and> name (tstore s t) = name (tstore st t)
      \<and> operator (tstore s t) = operator (tstore st t)"
    by (simp add: s run_frame enter_loop_frame)
  have outs: "\<forall>h \<in> set hs. \<forall>t \<in> set (tasks (hstore s h)). out (tstore s t) \<noteq> None"
  proof (intro ballI)
    fix h t
    assume "h \<in> set hs" "t \<in> set (tasks (hstore s h))"
    with fr have "t \<in> set (all_tasks st hs)" by (auto simp: all_tasks_iff)
    from enter_loop_frame(9)[OF this]
    have "t \<in> set (conf_tasks ?c0) \<or> out (tstore (conf_state ?c0) t) \<noteq> None" .
    from run_resolved_or_pending[OF this, of sim k] e s
    show "out (tstore s t) \<noteq> None" by simp
  qed
  from dealias_handlers_ok[OF outs] obtain st' where d: "dealias_handlers hs s = Inr st'" by blast
  note c = dealias_handlers_char[OF d]
  from c have e1: "st' = s\<lparr>layouts := layouts st'\<rparr>" by blast
  have f1: "handlers st' = handlers st" by (subst e1) (simp add: fr)
  have f2: "groups st' = groups st" by (subst e1) (simp add: fr)
  have f3: "hstore st' = hstore st" by (subst e1) (simp add: fr)
  have f4: "grid_layout_index st' = grid_layout_index st" by (subst e1) (simp add: fr)
  have f5: "tstore st' = tstore s" by (subst e1) simp
  have g: "\<forall>h \<in> set hs. \<forall>t \<in> set (tasks (hstore st h)).
               \<exists>f. out (tstore st' t) = Some f \<and> layouts st' f = 0"
    using c fr(3) f5 by simp
  from r d f1 f2 f3 f4 f5 ft g show ?thesis by simp
qed


lemma file_tasks_char:
  "file_tasks ts st = Inr st' \<Longrightarrow>
     st' = st\<lparr>layouts := layouts st'\<rparr> \<and>
     (\<forall>t \<in> set ts. out (tstore st t) \<noteq> None) \<and>
     (\<forall>f. ((\<exists>t \<in> set ts. out (tstore st t) = Some f) \<longrightarrow>
            (\<exists>u \<in> set ts. out (tstore st u) = Some f \<and> layouts st' f = layout (tstore st u))) \<and>
          ((\<forall>t \<in> set ts. out (tstore st t) \<noteq> Some f) \<longrightarrow> layouts st' f = layouts st f))"
proof (induction ts arbitrary: st)
  case Nil
  then show ?case by simp
next
  case (Cons x xs)
  from Cons.prems obtain g where o: "out (tstore st x) = Some g"
    and r: "file_tasks xs (st\<lparr>layouts := require_layout g (layout (tstore st x)) (layouts st)\<rparr>) = Inr st'"
    by (auto split: option.splits)
  let ?st1 = "st\<lparr>layouts := require_layout g (layout (tstore st x)) (layouts st)\<rparr>"
  have ts1: "tstore ?st1 = tstore st" by simp
  note ih = Cons.IH[OF r, unfolded ts1]
  from ih have e: "st' = ?st1\<lparr>layouts := layouts st'\<rparr>" by blast
  have a: "st' = st\<lparr>layouts := layouts st'\<rparr>" by (subst e) simp
  have b: "\<forall>t \<in> set (x # xs). out (tstore st t) \<noteq> None" using ih o by simp
  have c: "\<forall>f. ((\<exists>t \<in> set (x # xs). out (tstore st t) = Some f) \<longrightarrow>
            (\<exists>u \<in> set (x # xs). out (tstore st u) = Some f \<and> layouts st' f = layout (tstore st u))) \<and>
          ((\<forall>t \<in> set (x # xs). out (tstore st t) \<noteq> Some f) \<longrightarrow> layouts st' f = layouts st f)"
  proof
    fix f
    from ih have v1: "(\<exists>t \<in> set xs. out (tstore st t) = Some f) \<longrightarrow>
            (\<exists>u \<in> set xs. out (tstore st u) = Some f \<and> layouts st' f = layout (tstore st u))"
      and v2: "(\<forall>t \<in> set xs. out (tstore st t) \<noteq> Some f) \<longrightarrow> layouts st' f = layouts ?st1 f"
      by blast+
    show "((\<exists>t \<in> set (x # xs). out (tstore st t) = Some f) \<longrightarrow>
            (\<exists>u \<in> set (x # xs). out (tstore st u) = Some f \<and> layouts st' f = layout (tstore st u))) \<and>
          ((\<forall>t \<in> set (x # xs). out (tstore st t) \<noteq> Some f) \<longrightarrow> layouts st' f = layouts st f)"
    proof (cases "\<exists>t \<in> set xs. out (tstore st t) = Some f")
      case True
      with v1 show ?thesis by auto
    next
      case False
      with v2 have l: "layouts st' f = layouts ?st1 f" by simp
      show ?thesis
      proof (cases "g = f")
        case True
        with l o show ?thesis by (simp add: require_layout_def)
      next
        case ne: False
        with l o False show ?thesis by (auto simp: require_layout_def)
      qed
    qed
  qed
  from a b c show ?case by blast
qed

lemma file_tasks_requested:
  assumes r: "file_tasks ts st = Inr st'" and ag: "layouts_agree st ts" and t: "t \<in> set ts"
  shows "\<exists>f. out (tstore st' t) = Some f \<and> layouts st' f = layout (tstore st' t)"
proof -
  note c = file_tasks_char[OF r]
  note e = c[THEN conjunct1]
  note c2 = c[THEN conjunct2, THEN conjunct1, rule_format]
  note c3 = c[THEN conjunct2, THEN conjunct2, THEN spec, THEN conjunct1, THEN mp]
  have ts: "tstore st' = tstore st" by (subst e) simp
  from c2[OF t] obtain f where o: "out (tstore st t) = Some f" by blast
  with t have "\<exists>t \<in> set ts. out (tstore st t) = Some f" by blast
  from c3[OF this] obtain u where u: "u \<in> set ts" "out (tstore st u) = Some f"
    "layouts st' f = layout (tstore st u)"
    by blast
  from ag have "out (tstore st t) = out (tstore st u) \<longrightarrow> layout (tstore st t) = layout (tstore st u)"
    unfolding layouts_agree_def using t u(1) by blast
  with o u(2) have eq: "layout (tstore st t) = layout (tstore st u)" by simp
  have l: "layouts st' f = layout (tstore st t)" unfolding eq by (rule u(3))
  have "out (tstore st' t) = Some f \<and> layouts st' f = layout (tstore st' t)"
    unfolding ts using o l by blast
  then show ?thesis by blast
qed

lemma dictionary_tasks_file_tasks:
  "dictionary_tasks ts d st = Inr (d', st') \<Longrightarrow> file_tasks ts st = Inr st'"
  by (induction ts arbitrary: d st) (auto split: option.splits)

lemma layouts_agree_cong: "tstore a = tstore b \<Longrightarrow> layouts_agree a ts = layouts_agree b ts"
  by (simp add: layouts_agree_def)

lemma process_requested:
  assumes p: "process env h st = Inr st'" and s: "\<forall>b. sink (hstore st h) \<noteq> SystemHandler b"
    and ag: "layouts_agree st (tasks (hstore st h))" and t: "t \<in> set (tasks (hstore st h))"
  shows "\<exists>f. out (tstore st' t) = Some f \<and> layouts st' f = layout (tstore st' t)"
proof (cases "sink (hstore st h)")
  case (DictionaryHandler d)
  have pe: "process env h st =
      (case dictionary_tasks (tasks (hstore st h)) d st of
         Inl e \<Rightarrow> Inl e
       | Inr (d', st1) \<Rightarrow>
           Inr (st1\<lparr>hstore := (hstore st1)(h := (hstore st1 h)\<lparr>sink := DictionaryHandler d'\<rparr>)\<rparr>))"
    by (simp add: process_def DictionaryHandler)
  show ?thesis
  proof (cases "dictionary_tasks (tasks (hstore st h)) d st")
    case (Inl e)
    with pe p show ?thesis by simp
  next
    case (Inr x)
    obtain d' st1 where x: "x = (d', st1)" by (cases x) auto
    from Inr x have r: "dictionary_tasks (tasks (hstore st h)) d st = Inr (d', st1)" by simp
    have "process env h st =
        Inr (st1\<lparr>hstore := (hstore st1)(h := (hstore st1 h)\<lparr>sink := DictionaryHandler d'\<rparr>)\<rparr>)"
      unfolding pe r by simp
    with p have e: "st' = st1\<lparr>hstore := (hstore st1)(h := (hstore st1 h)\<lparr>sink := DictionaryHandler d'\<rparr>)\<rparr>"
      by simp
    have ts: "tstore st' = tstore st1" and ls: "layouts st' = layouts st1"
      unfolding e by simp_all
    from file_tasks_requested[OF dictionary_tasks_file_tasks[OF r] ag t] ts ls
    show ?thesis by simp
  qed
next
  case (SystemHandler b)
  with s show ?thesis by blast
next
  case (FileHandler fh)
  let ?st0 = "\<lambda>fh'. st\<lparr>hstore := (hstore st)(h := (hstore st h)\<lparr>sink := FileHandler fh'\<rparr>)\<rparr>"
  have pe: "process env h st =
      (case process_counters fh (containers env h) of
         Inl e \<Rightarrow> Inl e
       | Inr (fl, fh') \<Rightarrow> file_tasks (tasks (hstore st h)) (?st0 fh'))"
    by (simp add: process_def FileHandler)
  show ?thesis
  proof (cases "process_counters fh (containers env h)")
    case (Inl e)
    with pe p show ?thesis by simp
  next
    case (Inr x)
    obtain fl fh' where x: "x = (fl, fh')" by (cases x) auto
    have "process env h st = file_tasks (tasks (hstore st h)) (?st0 fh')"
      unfolding pe Inr x by simp
    with p have r: "file_tasks (tasks (hstore st h)) (?st0 fh') = Inr st'" by simp
    have "layouts_agree (?st0 fh') (tasks (hstore st h)) = layouts_agree st (tasks (hstore st h))"
      by (rule layouts_agree_cong) simp
    with ag have ag': "layouts_agree (?st0 fh') (tasks (hstore st h))" by blast
    from file_tasks_requested[OF r ag' t] show ?thesis .
  qed
qed


lemma grid_loop_state:
  "conf_state (osc_run sim 2 (enter_loop [0] sim (grid_state snk))) = ascended_grid_state snk"
  by (simp add: numeral_2_eq_2 enter_loop_def osc_body_def all_tasks_def grid_state_def grid_task_def
      grid_operator_def Handler_init_def get_fields_def ordered_add_def require_coeff_space_def
      towards_grid_space_def towards_coeff_space_def conf_tasks_def conf_state_def Let_def
      ascended_grid_state_def fun_eq_iff)

lemma grid_oscillate:
  "oscillate sim (enter_loop [0] sim (grid_state snk)) = Some (ascended_grid_state snk)"
  using oscillate_run[of sim 2 "enter_loop [0] sim (grid_state snk)"]
  by (simp only: grid_run_eval(1) grid_loop_state)

lemma grid_dealias:
  "dealias_handlers [0] (ascended_grid_state snk) = Inr (resolved_grid_state snk)"
  by (simp add: resolved_grid_state_def ascended_grid_state_def grid_state_def Handler_init_def
      require_coeff_space_def fun_eq_iff)

lemma grid_resolve_eq:
  "resolve_tasks [0] sim (grid_state snk) = Some (Inr (resolved_grid_state snk))"
  by (simp add: resolve_tasks_def grid_oscillate grid_dealias del: dealias_handlers.simps)

lemma resolved_grid_facts:
  "tasks (hstore (resolved_grid_state snk) h) = [0]"
  "sink (hstore (resolved_grid_state snk) h) = snk"
  "out (tstore (resolved_grid_state snk) 0) = Some 0"
  "layout (tstore (resolved_grid_state snk) 0) = 2"
  "layouts (resolved_grid_state snk) 0 = 0"
  "layouts_agree (resolved_grid_state snk) [0]"
  "layouts (ascended_grid_state snk) 0 = 2"
  "out (tstore (ascended_grid_state snk) 0) = Some 0"
  by (simp_all add: resolved_grid_state_def ascended_grid_state_def grid_state_def grid_task_def
      Handler_init_def layouts_agree_def)

lemma grid_out_layout: "out_layout_at_process [0] sim (grid_state snk) 0 = Some (0, 2)"
  using resolved_grid_facts(3,4,5)[of snk]
  by (simp add: out_layout_at_process_def grid_resolve_eq)

lemma resolve_tasks_dealias:
  assumes os: "oscillate sim (enter_loop hs sim st) = Some s"
  shows "\<exists>st'. resolve_tasks hs sim st = Some (Inr st') \<and> dealias_handlers hs s = Inr st' \<and>
           st' = s\<lparr>layouts := layouts st'\<rparr> \<and> hstore st' = hstore st \<and>
           (\<forall>h \<in> set hs. \<forall>t \<in> set (tasks (hstore st h)).
               \<exists>f. out (tstore st' t) = Some f \<and> layouts st' f = 0)"
proof -
  from os have rs: "resolve_tasks hs sim st = Some (dealias_handlers hs s)"
    by (simp add: resolve_tasks_def)
  from resolve_tasks_char[OF rs] obtain st' where
    r: "dealias_handlers hs s = Inr st'" and hs: "hstore st' = hstore st" and
    o: "\<forall>h \<in> set hs. \<forall>t \<in> set (tasks (hstore st h)).
               \<exists>f. out (tstore st' t) = Some f \<and> layouts st' f = 0"
    by blast
  from dealias_handlers_char[OF r] have e: "st' = s\<lparr>layouts := layouts st'\<rparr>" by blast
  from rs r hs o e show ?thesis by auto
qed

text \<open>
  Claim C6. Whenever the loop \<open>while tasks\<close> of \<open>evaluate_handlers\<close> has come to an end,
  the post-pass runs over the tasks of all handlers under evaluation and returns without
  an error; it changes nothing but layouts, afterwards every task of every such handler
  has its output field and that field is in the coefficient layout (index 0), and only
  then are the handlers processed, from that state.
\<close>

theorem outputs_dealiased_before_process:
  assumes "oscillate sim_time (enter_loop hs sim_time st) = Some s"
  shows "\<exists>st'. resolve_tasks hs sim_time st = Some (Inr st') \<and>
           dealias_handlers hs s = Inr st' \<and>
           st' = s\<lparr>layouts := layouts st'\<rparr> \<and>
           evaluate_handlers env hs wall_time sim_time iteration st
             = Some (process_handlers env hs st') \<and>
           (\<forall>h \<in> set hs. \<forall>t \<in> set (tasks (hstore st' h)).
               \<exists>f. out (tstore st' t) = Some f \<and> layouts st' f = 0)"
proof -
  from resolve_tasks_dealias[OF assms] obtain st' where
    r: "resolve_tasks hs sim_time st = Some (Inr st')" and d: "dealias_handlers hs s = Inr st'"
    and e: "st' = s\<lparr>layouts := layouts st'\<rparr>" and hs: "hstore st' = hstore st" and
    o: "\<forall>h \<in> set hs. \<forall>t \<in> set (tasks (hstore st h)).
               \<exists>f. out (tstore st' t) = Some f \<and> layouts st' f = 0"
    by blast
  have ev: "evaluate_handlers env hs wall_time sim_time iteration st
          = Some (process_handlers env hs st')"
    using r by (simp add: evaluate_handlers_def)
  from o hs have o': "\<forall>h \<in> set hs. \<forall>t \<in> set (tasks (hstore st' h)).
               \<exists>f. out (tstore st' t) = Some f \<and> layouts st' f = 0" by simp
  from r d e ev o' show ?thesis by blast
qed

theorem outputs_dealiased_before_process_witness:
  "oscillate 0 (enter_loop [0] 0 (grid_state (SystemHandler True)))
     = Some (ascended_grid_state (SystemHandler True)) \<and>
   out (tstore (ascended_grid_state (SystemHandler True)) 0) = Some 0 \<and>
   layouts (ascended_grid_state (SystemHandler True)) 0 = 2 \<and>
   resolve_tasks [0] 0 (grid_state (SystemHandler True))
     = Some (Inr (resolved_grid_state (SystemHandler True))) \<and>
   evaluate_handlers no_files [0] 0 0 0 (grid_state (SystemHandler True))
     = Some (process_handlers no_files [0] (resolved_grid_state (SystemHandler True))) \<and>
   out (tstore (resolved_grid_state (SystemHandler True)) 0) = Some 0 \<and>
   layouts (resolved_grid_state (SystemHandler True)) 0 = 0"
proof -
  let ?A = "ascended_grid_state (SystemHandler True)"
  let ?R = "resolved_grid_state (SystemHandler True)"
  have os: "oscillate 0 (enter_loop [0] 0 (grid_state (SystemHandler True))) = Some ?A"
    by (rule grid_oscillate)
  from outputs_dealiased_before_process[OF os, of no_files 0 0]
  obtain st' where r: "resolve_tasks [0] 0 (grid_state (SystemHandler True)) = Some (Inr st')"
    and d: "dealias_handlers [0] ?A = Inr st'"
    and ev: "evaluate_handlers no_files [0] 0 0 0 (grid_state (SystemHandler True))
             = Some (process_handlers no_files [0] st')"
    and o: "\<forall>h \<in> set [0]. \<forall>t \<in> set (tasks (hstore st' h)).
               \<exists>f. out (tstore st' t) = Some f \<and> layouts st' f = 0"
    by blast
  from d have s: "st' = ?R" unfolding grid_dealias by simp
  from o have "\<exists>f. out (tstore ?R 0) = Some f \<and> layouts ?R f = 0"
    unfolding s by (simp add: resolved_grid_facts(1))
  moreover have oR: "out (tstore ?R 0) = Some 0" by (rule resolved_grid_facts)
  ultimately have z: "layouts ?R 0 = 0" by simp
  have a: "out (tstore ?A 0) = Some 0" "layouts ?A 0 = 2" by (rule resolved_grid_facts)+
  from os a r[unfolded s] ev[unfolded s] oR z show ?thesis by blast
qed

text \<open>
  Claim C5, as amended. When \<open>evaluate_handlers\<close> starts to call \<open>process\<close>, the output
  field of every task is in the coefficient layout (index 0), where the post-pass has
  just put it, whatever layout the task asks for. The requested layout is reached inside
  \<open>process\<close>: a \<open>DictionaryHandler\<close> and a \<open>FileHandler\<close> call \<open>require_layout\<close> on each
  output before they store or write it, so that, unless two tasks of the handler share
  an output field and ask for different layouts, every output is in its task's layout
  when \<open>process\<close> returns.
\<close>

theorem outputs_reach_requested_layout_inside_process:
  assumes r: "resolve_tasks hs sim_time st = Some (Inr st')" and h: "h \<in> set hs"
    and t: "t \<in> set (tasks (hstore st' h))"
  shows "evaluate_handlers env hs wall_time sim_time iteration st
           = Some (process_handlers env hs st') \<and>
         (\<exists>f. out (tstore st' t) = Some f \<and> layouts st' f = 0) \<and>
         (\<forall>s s'. (\<forall>b. sink (hstore s h) \<noteq> SystemHandler b) \<and>
                 layouts_agree s (tasks (hstore s h)) \<and>
                 t \<in> set (tasks (hstore s h)) \<and> process env h s = Inr s' \<longrightarrow>
                 (\<exists>f. out (tstore s' t) = Some f \<and> layouts s' f = layout (tstore s' t)))"
proof (intro conjI allI impI)
  show "evaluate_handlers env hs wall_time sim_time iteration st
           = Some (process_handlers env hs st')"
    using r by (simp add: evaluate_handlers_def)
next
  from resolve_tasks_char[OF r] have hs: "hstore st' = hstore st" and
    o: "\<forall>h \<in> set hs. \<forall>t \<in> set (tasks (hstore st h)).
               \<exists>f. out (tstore st' t) = Some f \<and> layouts st' f = 0"
    by blast+
  from o h t hs show "\<exists>f. out (tstore st' t) = Some f \<and> layouts st' f = 0" by simp
next
  fix s s'
  assume a: "(\<forall>b. sink (hstore s h) \<noteq> SystemHandler b) \<and>
                 layouts_agree s (tasks (hstore s h)) \<and>
                 t \<in> set (tasks (hstore s h)) \<and> process env h s = Inr s'"
  then have p: "process env h s = Inr s'" and sk: "\<forall>b. sink (hstore s h) \<noteq> SystemHandler b"
    and ag: "layouts_agree s (tasks (hstore s h))" and ts: "t \<in> set (tasks (hstore s h))"
    by blast+
  show "\<exists>f. out (tstore s' t) = Some f \<and> layouts s' f = layout (tstore s' t)"
    by (rule process_requested[OF p sk ag ts])
qed

lemma grid_dictionary_process:
  "map_sum id (\<lambda>s. (layouts s 0, sink (hstore s 0)))
     (process no_files 0 (resolved_grid_state (DictionaryHandler Map.empty)))
     = Inr (2, DictionaryHandler [''u'' \<mapsto> 0])"
  by (simp add: process_def resolved_grid_state_def ascended_grid_state_def grid_state_def
      grid_task_def Handler_init_def require_layout_def)

theorem outputs_reach_requested_layout_inside_process_witness:
  "resolve_tasks [0] 0 (grid_state (DictionaryHandler Map.empty))
     = Some (Inr (resolved_grid_state (DictionaryHandler Map.empty))) \<and>
   0 \<in> set [0 :: hid] \<and>
   0 \<in> set (tasks (hstore (resolved_grid_state (DictionaryHandler Map.empty)) 0)) \<and>
   layouts (ascended_grid_state (DictionaryHandler Map.empty)) 0 = 2 \<and>
   layouts (resolved_grid_state (DictionaryHandler Map.empty)) 0 = 0 \<and>
   layouts_agree (resolved_grid_state (DictionaryHandler Map.empty)) [0] \<and>
   map_sum id (\<lambda>s. (layouts s 0, sink (hstore s 0)))
     (process no_files 0 (resolved_grid_state (DictionaryHandler Map.empty)))
     = Inr (2, DictionaryHandler [''u'' \<mapsto> 0])"
proof -
  let ?R = "resolved_grid_state (DictionaryHandler Map.empty)"
  have r: "resolve_tasks [0] 0 (grid_state (DictionaryHandler Map.empty)) = Some (Inr ?R)"
    by (rule grid_resolve_eq)
  have h: "0 \<in> set [0 :: hid]" by simp
  have t: "0 \<in> set (tasks (hstore ?R 0))" by (simp add: resolved_grid_facts)
  note T = outputs_reach_requested_layout_inside_process[OF r h t, of no_files]
  from T have "\<exists>f. out (tstore ?R 0) = Some f \<and> layouts ?R f = 0" by blast
  moreover have o: "out (tstore ?R 0) = Some 0" by (rule resolved_grid_facts)
  ultimately have z: "layouts ?R 0 = 0" by simp
  obtain s' where p: "process no_files 0 ?R = Inr s'"
    using grid_dictionary_process by (cases "process no_files 0 ?R") auto
  have pre: "(\<forall>b. sink (hstore ?R 0) \<noteq> SystemHandler b) \<and>
                 layouts_agree ?R (tasks (hstore ?R 0)) \<and>
                 0 \<in> set (tasks (hstore ?R 0)) \<and> process no_files 0 ?R = Inr s'"
    using p by (simp add: resolved_grid_facts)
  from T pre have "\<exists>f. out (tstore s' 0) = Some f \<and> layouts s' f = layout (tstore s' 0)"
    by blast
  then have nonvacuous: "layouts s' 0 = 2"
    using p grid_dictionary_process by simp
  have ag: "layouts_agree ?R [0]" by (rule resolved_grid_facts)
  have a: "layouts (ascended_grid_state (DictionaryHandler Map.empty)) 0 = 2"
    by (rule resolved_grid_facts)
  from r h t a z ag grid_dictionary_process show ?thesis by blast
qed

theorem output_in_coeff_space_when_process_is_called:
  "out_layout_at_process [0] 1 (grid_state (DictionaryHandler Map.empty)) 0 = Some (0, 2)"
  by (rule grid_out_layout)


section \<open>Group evaluation leaves the cadence state alone\<close>

lemma same_cadence_refl: "same_cadence a a"
  by (simp add: same_cadence_def)

lemma same_cadence_trans: "same_cadence a b \<Longrightarrow> same_cadence b c \<Longrightarrow> same_cadence a c"
  unfolding same_cadence_def
proof
  fix h
  assume ab: "\<forall>h. b h = (a h)\<lparr>sink := sink (b h)\<rparr>" and bc: "\<forall>h. c h = (b h)\<lparr>sink := sink (c h)\<rparr>"
  from bc have "c h = (b h)\<lparr>sink := sink (c h)\<rparr>" by blast
  also from ab have "b h = (a h)\<lparr>sink := sink (b h)\<rparr>" by blast
  finally show "c h = (a h)\<lparr>sink := sink (c h)\<rparr>" by simp
qed

lemma same_cadence_upd: "same_cadence a (a(h := (a h)\<lparr>sink := x\<rparr>))"
  by (simp add: same_cadence_def)

lemma same_cadence_fields:
  assumes "same_cadence a b"
  shows "wall_dt (b h) = wall_dt (a h)" "sim_dt (b h) = sim_dt (a h)" "iter (b h) = iter (a h)"
    "last_wall_div (b h) = last_wall_div (a h)" "last_sim_div (b h) = last_sim_div (a h)"
    "last_iter_div (b h) = last_iter_div (a h)" "tasks (b h) = tasks (a h)"
    "group (b h) = group (a h)"
proof -
  from assms have e: "b h = (a h)\<lparr>sink := sink (b h)\<rparr>" by (simp add: same_cadence_def)
  show "wall_dt (b h) = wall_dt (a h)" by (subst e) simp
  show "sim_dt (b h) = sim_dt (a h)" by (subst e) simp
  show "iter (b h) = iter (a h)" by (subst e) simp
  show "last_wall_div (b h) = last_wall_div (a h)" by (subst e) simp
  show "last_sim_div (b h) = last_sim_div (a h)" by (subst e) simp
  show "last_iter_div (b h) = last_iter_div (a h)" by (subst e) simp
  show "tasks (b h) = tasks (a h)" by (subst e) simp
  show "group (b h) = group (a h)" by (subst e) simp
qed

lemma file_tasks_frame:
  assumes "file_tasks ts st = Inr st'"
  shows "handlers st' = handlers st" "groups st' = groups st" "hstore st' = hstore st"
proof -
  note e = file_tasks_char[OF assms, THEN conjunct1]
  show "handlers st' = handlers st" by (subst e) simp
  show "groups st' = groups st" by (subst e) simp
  show "hstore st' = hstore st" by (subst e) simp
qed

lemma process_frame:
  assumes p: "process env h st = Inr st'"
  shows "handlers st' = handlers st \<and> groups st' = groups st \<and> same_cadence (hstore st) (hstore st')"
proof (cases "sink (hstore st h)")
  case (DictionaryHandler d)
  have pe: "process env h st =
      (case dictionary_tasks (tasks (hstore st h)) d st of
         Inl e \<Rightarrow> Inl e
       | Inr (d', st1) \<Rightarrow>
           Inr (st1\<lparr>hstore := (hstore st1)(h := (hstore st1 h)\<lparr>sink := DictionaryHandler d'\<rparr>)\<rparr>))"
    by (simp add: process_def DictionaryHandler)
  show ?thesis
  proof (cases "dictionary_tasks (tasks (hstore st h)) d st")
    case (Inl e)
    with pe p show ?thesis by simp
  next
    case (Inr x)
    obtain d' st1 where x: "x = (d', st1)" by (cases x) auto
    from Inr x have r: "dictionary_tasks (tasks (hstore st h)) d st = Inr (d', st1)" by simp
    have "process env h st =
        Inr (st1\<lparr>hstore := (hstore st1)(h := (hstore st1 h)\<lparr>sink := DictionaryHandler d'\<rparr>)\<rparr>)"
      unfolding pe r by simp
    with p have e: "st' = st1\<lparr>hstore := (hstore st1)(h := (hstore st1 h)\<lparr>sink := DictionaryHandler d'\<rparr>)\<rparr>"
      by simp
    note f = file_tasks_frame[OF dictionary_tasks_file_tasks[OF r]]
    have "handlers st' = handlers st" "groups st' = groups st"
      unfolding e using f by simp_all
    moreover have "same_cadence (hstore st) (hstore st')"
      unfolding e using f(3) by (simp add: same_cadence_upd)
    ultimately show ?thesis by blast
  qed
next
  case (SystemHandler b)
  with p obtain lay where "st' = st\<lparr>layouts := lay\<rparr>"
    by (auto simp: process_def split: if_splits sum.splits)
  then show ?thesis by (simp add: same_cadence_refl)
next
  case (FileHandler fh)
  let ?st0 = "\<lambda>fh'. st\<lparr>hstore := (hstore st)(h := (hstore st h)\<lparr>sink := FileHandler fh'\<rparr>)\<rparr>"
  have pe: "process env h st =
      (case process_counters fh (containers env h) of
         Inl e \<Rightarrow> Inl e
       | Inr (fl, fh') \<Rightarrow> file_tasks (tasks (hstore st h)) (?st0 fh'))"
    by (simp add: process_def FileHandler)
  show ?thesis
  proof (cases "process_counters fh (containers env h)")
    case (Inl e)
    with pe p show ?thesis by simp
  next
    case (Inr x)
    obtain fl fh' where x: "x = (fl, fh')" by (cases x) auto
    have "process env h st = file_tasks (tasks (hstore st h)) (?st0 fh')"
      unfolding pe Inr x by simp
    with p have r: "file_tasks (tasks (hstore st h)) (?st0 fh') = Inr st'" by simp
    note f = file_tasks_frame[OF r]
    have "handlers st' = handlers st" "groups st' = groups st" using f by simp_all
    moreover have "same_cadence (hstore st) (hstore st')"
      using f(3) by (simp add: same_cadence_upd)
    ultimately show ?thesis by blast
  qed
qed

lemma process_handlers_frame:
  "process_handlers env hs st = Inr st' \<Longrightarrow>
     handlers st' = handlers st \<and> groups st' = groups st \<and> same_cadence (hstore st) (hstore st')"
proof (induction hs arbitrary: st)
  case Nil
  then show ?case by (simp add: same_cadence_refl)
next
  case (Cons x xs)
  from Cons.prems obtain st1 where p: "process env x st = Inr st1"
    and r: "process_handlers env xs st1 = Inr st'"
    by (auto split: sum.splits)
  from process_frame[OF p] Cons.IH[OF r] show ?case
    by (auto intro: same_cadence_trans)
qed

lemma evaluate_handlers_frame:
  assumes "evaluate_handlers env hs w s i st = Some (Inr st')"
  shows "handlers st' = handlers st \<and> groups st' = groups st \<and> same_cadence (hstore st) (hstore st')"
proof -
  from assms obtain r where r: "resolve_tasks hs s st = Some r"
    by (auto simp: evaluate_handlers_def split: option.splits)
  from resolve_tasks_char[OF r] obtain st1 where
    r1: "r = Inr st1" and f: "handlers st1 = handlers st" "groups st1 = groups st"
    "hstore st1 = hstore st"
    by blast
  from assms r r1 have "process_handlers env hs st1 = Inr st'"
    by (simp add: evaluate_handlers_def)
  from process_handlers_frame[OF this] f show ?thesis by simp
qed

















section \<open>Calls of the scheduler\<close>

lemma divisors_total:
  "wall_dt h \<noteq> Fin 0 \<Longrightarrow> sim_dt h \<noteq> Fin 0 \<Longrightarrow> iter h \<noteq> Fin 0 \<Longrightarrow> \<exists>d. divisors h w s i = Inr d"
  by (cases "wall_dt h"; cases "sim_dt h"; cases "iter h") (simp_all add: divisors_def)






lemma schedule_loop_total:
  "\<forall>k \<in> set hs. \<exists>d. divisors (a k) w s i = Inr d \<Longrightarrow> \<exists>r. schedule_loop w s i hs (l, a) = Inr r"
proof (induction hs arbitrary: l a)
  case Nil
  then show ?case by simp
next
  case (Cons x xs)
  from Cons.prems obtain d where d: "divisors (a x) w s i = Inr d" by auto
  show ?case
  proof (cases "any_up (a x) d")
    case True
    let ?a = "a(x := update_divisors (a x) d)"
    from d True have so: "schedule_one w s i x (l, a) = Inr (l @ [x], ?a)"
      by (simp add: schedule_one_def)
    from Cons.prems have "\<forall>k \<in> set xs. \<exists>d. divisors (?a k) w s i = Inr d" by auto
    from Cons.IH[OF this, of "l @ [x]"] obtain r where
      r: "schedule_loop w s i xs (l @ [x], ?a) = Inr r" by blast
    have "schedule_loop w s i (x # xs) (l, a) = schedule_loop w s i xs (l @ [x], ?a)"
      by (simp only: schedule_loop.simps so sum.case)
    with r show ?thesis by (simp only:) blast
  next
    case False
    with d have so: "schedule_one w s i x (l, a) = Inr (l, a)"
      by (simp add: schedule_one_def)
    from Cons.prems have "\<forall>k \<in> set xs. \<exists>d. divisors (a k) w s i = Inr d" by auto
    from Cons.IH[OF this, of l] obtain r where
      r: "schedule_loop w s i xs (l, a) = Inr r" by blast
    have "schedule_loop w s i (x # xs) (l, a) = schedule_loop w s i xs (l, a)"
      by (simp only: schedule_loop.simps so sum.case)
    with r show ?thesis by (simp only:) blast
  qed
qed

lemma select_scheduled_total:
  assumes "\<forall>k \<in> set (handlers st). wall_dt (hstore st k) \<noteq> Fin 0 \<and> sim_dt (hstore st k) \<noteq> Fin 0 \<and>
             iter (hstore st k) \<noteq> Fin 0"
  shows "select_scheduled w s i st = Inr (scheduled_handlers w s i st, selected_state w s i st)"
proof -
  from assms have "\<forall>k \<in> set (handlers st). \<exists>d. divisors (hstore st k) w s i = Inr d"
    by (blast intro: divisors_total)
  from schedule_loop_total[OF this, of "[]"] obtain r where
    "schedule_loop w s i (handlers st) ([], hstore st) = Inr r" by blast
  then show ?thesis
    by (cases r) (simp add: select_scheduled_def scheduled_handlers_def selected_state_def)
qed


lemma eval_step:
  assumes ev: "evaluate_scheduled env w s i st = Some (Inr st')"
  shows "select_scheduled w s i st = Inr (scheduled_handlers w s i st, selected_state w s i st) \<and>
         evaluate_handlers env (scheduled_handlers w s i st) w s i (selected_state w s i st)
           = Some (Inr st') \<and>
         handlers st' = handlers st \<and>
         same_cadence (hstore (selected_state w s i st)) (hstore st')"
proof (cases "select_scheduled w s i st")
  case (Inl e)
  with ev show ?thesis by (simp add: evaluate_scheduled_def)
next
  case (Inr x)
  obtain l st1 where x: "x = (l, st1)" by (cases x) auto
  from Inr x have sel: "select_scheduled w s i st = Inr (l, st1)" by simp
  then have l: "scheduled_handlers w s i st = l" and s1: "selected_state w s i st = st1"
    by (simp_all add: scheduled_handlers_def selected_state_def)
  from ev sel have eh: "evaluate_handlers env l w s i st1 = Some (Inr st')"
    by (simp add: evaluate_scheduled_def)
  from evaluate_handlers_frame[OF eh] select_scheduled_handlers[OF sel]
  have "handlers st' = handlers st" "same_cadence (hstore st1) (hstore st')" by simp_all
  with sel eh l s1 show ?thesis by simp
qed

lemma eval_fires:
  assumes ev: "evaluate_scheduled env w s i st = Some (Inr st')" and h: "h \<in> set (handlers st)"
  shows "\<exists>wall_div sim_div iter_div.
           float_floordiv w (wall_dt (hstore st h)) = Inr wall_div \<and>
           float_floordiv s (sim_dt (hstore st h)) = Inr sim_div \<and>
           int_floordiv i (iter (hstore st h)) = Inr iter_div \<and>
           (h \<in> set (scheduled_handlers w s i st) \<longleftrightarrow>
              wall_div > last_wall_div (hstore st h) \<or> sim_div > last_sim_div (hstore st h)
              \<or> iter_div > last_iter_div (hstore st h)) \<and>
           recorded (hstore st' h) =
             (if h \<in> set (scheduled_handlers w s i st) then (wall_div, sim_div, iter_div)
              else recorded (hstore st h))"
    and "wall_dt (hstore st' h) = wall_dt (hstore st h)"
    and "sim_dt (hstore st' h) = sim_dt (hstore st h)"
    and "iter (hstore st' h) = iter (hstore st h)"
    and "h \<in> set (handlers st')"
proof -
  let ?l = "scheduled_handlers w s i st" and ?s1 = "selected_state w s i st"
  from eval_step[OF ev] have sel: "select_scheduled w s i st = Inr (?l, ?s1)"
    and hs: "handlers st' = handlers st" and sc: "same_cadence (hstore ?s1) (hstore st')"
    by blast+
  note f = same_cadence_fields[OF sc, of h]
  from fires_iff_general[OF sel h] obtain wd sd idv where
    fl: "float_floordiv w (wall_dt (hstore st h)) = Inr wd"
       "float_floordiv s (sim_dt (hstore st h)) = Inr sd"
       "int_floordiv i (iter (hstore st h)) = Inr idv" and
    m: "h \<in> set ?l \<longleftrightarrow> wd > last_wall_div (hstore st h) \<or> sd > last_sim_div (hstore st h)
              \<or> idv > last_iter_div (hstore st h)" and
    v1: "h \<in> set ?l \<longrightarrow> hstore ?s1 h = (hstore st h)\<lparr>last_wall_div := wd, last_sim_div := sd,
                                           last_iter_div := idv\<rparr>" and
    v2: "h \<notin> set ?l \<longrightarrow> hstore ?s1 h = hstore st h"
    by blast
  have r: "recorded (hstore st' h) = (if h \<in> set ?l then (wd, sd, idv) else recorded (hstore st h))"
    using v1 v2 f(4,5,6) by (cases "h \<in> set ?l") (simp_all add: recorded_def)
  from fl m r show "\<exists>wall_div sim_div iter_div.
           float_floordiv w (wall_dt (hstore st h)) = Inr wall_div \<and>
           float_floordiv s (sim_dt (hstore st h)) = Inr sim_div \<and>
           int_floordiv i (iter (hstore st h)) = Inr iter_div \<and>
           (h \<in> set ?l \<longleftrightarrow>
              wall_div > last_wall_div (hstore st h) \<or> sim_div > last_sim_div (hstore st h)
              \<or> iter_div > last_iter_div (hstore st h)) \<and>
           recorded (hstore st' h) =
             (if h \<in> set ?l then (wall_div, sim_div, iter_div) else recorded (hstore st h))"
    by blast
  from v1 v2 f(1) show "wall_dt (hstore st' h) = wall_dt (hstore st h)"
    by (cases "h \<in> set ?l") simp_all
  from v1 v2 f(2) show "sim_dt (hstore st' h) = sim_dt (hstore st h)"
    by (cases "h \<in> set ?l") simp_all
  from v1 v2 f(3) show "iter (hstore st' h) = iter (hstore st h)"
    by (cases "h \<in> set ?l") simp_all
  from hs h show "h \<in> set (handlers st')" by simp
qed

lemma run_Cons:
  assumes "evaluate_scheduled_run env ((w, s, i) # calls) st = Some (Inr (lg, st''))"
  shows "\<exists>st' rest. evaluate_scheduled env w s i st = Some (Inr st') \<and>
           evaluate_scheduled_run env calls st' = Some (Inr (rest, st'')) \<and>
           lg = (st, scheduled_handlers w s i st) # rest"
  using assms by (auto split: option.splits sum.splits)

lemma run_Nil:
  "evaluate_scheduled_run env [] st = Some (Inr (lg, st'')) \<Longrightarrow> lg = [] \<and> st'' = st"
  by simp

lemma firing_log_Cons:
  "firing_log h (Some (Inr ((st, l) # rest, st''))) =
     map_option (map_sum id (\<lambda>(es, r). ((recorded (hstore st h), h \<in> set l) # es, r)))
       (firing_log h (Some (Inr (rest, st''))))"
  by (simp add: firing_log_def)

lemma firing_log_Nil: "firing_log h (Some (Inr ([], st))) = Some (Inr ([], recorded (hstore st h)))"
  by (simp add: firing_log_def)

subsection \<open>Idle handlers\<close>

lemma dealias_handlers_idle:
  "\<forall>h \<in> set hs. tasks (hstore st h) = [] \<Longrightarrow> dealias_handlers hs st = Inr st"
  by (induction hs) simp_all

lemma resolve_tasks_idle:
  assumes "\<forall>h \<in> set hs. tasks (hstore st h) = []"
  shows "resolve_tasks hs sim st = Some (Inr st)"
proof -
  from assms have a: "all_tasks st hs = []" by (simp add: all_tasks_def)
  have e: "enter_loop hs sim st = (0, 1, [], st)"
    by (simp add: enter_loop_def a get_fields_def)
  have "conf_tasks (osc_run sim 0 (enter_loop hs sim st)) = []"
    by (simp add: e conf_tasks_def)
  from oscillate_run[OF this] have "oscillate sim (enter_loop hs sim st) = Some st"
    by (simp add: e conf_state_def)
  then show ?thesis by (simp add: resolve_tasks_def dealias_handlers_idle[OF assms])
qed

lemma process_handlers_idle:
  "\<forall>h \<in> set hs. sink (hstore st h) = SystemHandler True \<Longrightarrow> process_handlers no_files hs st = Inr st"
  by (induction hs) (simp_all add: process_def no_files_def)

lemma evaluate_handlers_idle:
  assumes "\<forall>h \<in> set hs. tasks (hstore st h) = [] \<and> sink (hstore st h) = SystemHandler True"
  shows "evaluate_handlers no_files hs w s i st = Some (Inr st)"
proof -
  from assms have "resolve_tasks hs s st = Some (Inr st)" by (intro resolve_tasks_idle) simp
  moreover from assms have "process_handlers no_files hs st = Inr st"
    by (intro process_handlers_idle) simp
  ultimately show ?thesis by (simp add: evaluate_handlers_def)
qed

lemma fired_fields:
  "tasks (fired h w s i) = tasks h" "sink (fired h w s i) = sink h"
  "wall_dt (fired h w s i) = wall_dt h" "sim_dt (fired h w s i) = sim_dt h"
  "iter (fired h w s i) = iter h"
  by (simp_all add: fired_def update_divisors_def split: sum.splits prod.splits)

lemma idle_eval:
  assumes "idle_state st"
  shows "evaluate_scheduled no_files w s i st = Some (Inr (selected_state w s i st))"
    and "idle_state (selected_state w s i st)"
    and "handlers (selected_state w s i st) = handlers st"
proof -
  let ?l = "scheduled_handlers w s i st" and ?s1 = "selected_state w s i st"
  from assms have nz: "\<forall>k \<in> set (handlers st). wall_dt (hstore st k) \<noteq> Fin 0 \<and>
      sim_dt (hstore st k) \<noteq> Fin 0 \<and> iter (hstore st k) \<noteq> Fin 0"
    by (simp add: idle_state_def)
  from select_scheduled_total[OF nz] have sel: "select_scheduled w s i st = Inr (?l, ?s1)" .
  note c = select_scheduled_char(2)[OF sel]
  from select_scheduled_handlers[OF sel] show hs: "handlers ?s1 = handlers st" .
  have f: "\<And>h. tasks (hstore ?s1 h) = tasks (hstore st h) \<and> sink (hstore ?s1 h) = sink (hstore st h) \<and>
      wall_dt (hstore ?s1 h) = wall_dt (hstore st h) \<and> sim_dt (hstore ?s1 h) = sim_dt (hstore st h) \<and>
      iter (hstore ?s1 h) = iter (hstore st h)"
    using c by (simp add: fired_fields)
  from assms show id1: "idle_state ?s1" by (simp add: idle_state_def hs f)
  have "\<forall>h \<in> set ?l. h \<in> set (handlers st)" using c by blast
  with id1 have "\<forall>h \<in> set ?l. tasks (hstore ?s1 h) = [] \<and> sink (hstore ?s1 h) = SystemHandler True"
    by (simp add: idle_state_def hs)
  from evaluate_handlers_idle[OF this]
  show "evaluate_scheduled no_files w s i st = Some (Inr ?s1)"
    by (simp add: evaluate_scheduled_def sel)
qed

lemma idle_run:
  "idle_state st \<Longrightarrow> \<exists>r. evaluate_scheduled_run no_files calls st = Some (Inr r)"
proof (induction calls arbitrary: st)
  case Nil
  then show ?case by simp
next
  case (Cons c calls)
  obtain w s i where c: "c = (w, s, i)" by (cases c) auto
  from Cons.IH[OF idle_eval(2)[OF Cons.prems, of w s i]] idle_eval(1)[OF Cons.prems, of w s i]
  show ?case by (auto simp: c)
qed

lemma idle_single:
  "idle_state (single_handler_state (Handler_init g wdt sdt it (SystemHandler True))) \<longleftrightarrow>
     wdt \<noteq> Fin 0 \<and> sdt \<noteq> Fin 0 \<and> it \<noteq> Fin 0"
  by (simp add: idle_state_def single_handler_state_def Handler_init_def)

subsection \<open>Python's floor division and the floor of the quotient\<close>



lemma floordiv_neg_inf:
  "x < 0 \<Longrightarrow> float_floordiv x Inf = Inr (-1)" "i < 0 \<Longrightarrow> int_floordiv i Inf = Inr (-1)"
  by simp_all

subsection \<open>A handler with unit cadence in simulation time\<close>




lemma eval_recorded:
  assumes ev: "evaluate_scheduled env w s i st = Some (Inr st')" and h: "h \<in> set (handlers st)"
    and fl: "float_floordiv w (wall_dt (hstore st h)) = Inr wd"
            "float_floordiv s (sim_dt (hstore st h)) = Inr sd"
            "int_floordiv i (iter (hstore st h)) = Inr idv"
    and la: "recorded (hstore st h) = (a, b, c)"
  shows "h \<in> set (scheduled_handlers w s i st) \<longleftrightarrow> wd > a \<or> sd > b \<or> idv > c"
    and "recorded (hstore st' h) =
           (if h \<in> set (scheduled_handlers w s i st) then (wd, sd, idv) else (a, b, c))"
proof -
  from eval_fires(1)[OF ev h] fl have
    m: "h \<in> set (scheduled_handlers w s i st) \<longleftrightarrow>
          wd > last_wall_div (hstore st h) \<or> sd > last_sim_div (hstore st h)
              \<or> idv > last_iter_div (hstore st h)" and
    r: "recorded (hstore st' h) =
          (if h \<in> set (scheduled_handlers w s i st) then (wd, sd, idv) else recorded (hstore st h))"
    by auto
  from la have l: "last_wall_div (hstore st h) = a" "last_sim_div (hstore st h) = b"
    "last_iter_div (hstore st h) = c" by (simp_all add: recorded_def)
  from m l show "h \<in> set (scheduled_handlers w s i st) \<longleftrightarrow> wd > a \<or> sd > b \<or> idv > c" by simp
  from r la show "recorded (hstore st' h) =
           (if h \<in> set (scheduled_handlers w s i st) then (wd, sd, idv) else (a, b, c))" by simp
qed




lemma single_facts:
  "handlers (single_handler_state H) = [0]" "hstore (single_handler_state H) k = H"
  by (simp_all add: single_handler_state_def)

lemma init_facts:
  "wall_dt (Handler_init g wdt sdt it snk) = wdt" "sim_dt (Handler_init g wdt sdt it snk) = sdt"
  "iter (Handler_init g wdt sdt it snk) = it"
  "recorded (Handler_init g wdt sdt it snk) = (-1, -1, -1)"
  "last_wall_div (Handler_init g wdt sdt it snk) = -1"
  "last_sim_div (Handler_init g wdt sdt it snk) = -1"
  "last_iter_div (Handler_init g wdt sdt it snk) = -1"
  by (simp_all add: Handler_init_def recorded_def)




section \<open>Channels with an infinite cadence\<close>

lemma run_invariant:
  assumes step: "\<forall>c st st'. c \<in> set calls \<and> I st \<and>
      evaluate_scheduled env (fst c) (fst (snd c)) (snd (snd c)) st = Some (Inr st') \<longrightarrow> I st'"
    and i0: "I st" and run: "evaluate_scheduled_run env calls st = Some (Inr (lg, st'))"
  shows "(length lg = length calls \<and> (\<forall>k < length calls. I (fst (lg ! k)))) \<and>
         (\<forall>k < length calls.
            snd (lg ! k) = scheduled_handlers (fst (calls ! k)) (fst (snd (calls ! k)))
                             (snd (snd (calls ! k))) (fst (lg ! k)) \<and>
            (\<exists>st''. evaluate_scheduled env (fst (calls ! k)) (fst (snd (calls ! k)))
                       (snd (snd (calls ! k))) (fst (lg ! k)) = Some (Inr st''))) \<and>
         I st'"
  using assms
proof (induction calls arbitrary: st lg)
  case Nil
  then show ?case by simp
next
  case (Cons c calls)
  obtain w s i where c: "c = (w, s, i)" by (cases c) auto
  from run_Cons[OF Cons.prems(3)[unfolded c]] obtain st1 rest where
    ev: "evaluate_scheduled env w s i st = Some (Inr st1)" and
    r: "evaluate_scheduled_run env calls st1 = Some (Inr (rest, st'))" and
    lg: "lg = (st, scheduled_handlers w s i st) # rest" by blast
  have "c \<in> set (c # calls) \<and> I st \<and>
      evaluate_scheduled env (fst c) (fst (snd c)) (snd (snd c)) st = Some (Inr st1)"
    using Cons.prems(2) ev by (simp add: c)
  with Cons.prems(1) have i1: "I st1" by blast
  have st: "\<forall>c' st0 st1. c' \<in> set calls \<and> I st0 \<and>
      evaluate_scheduled env (fst c') (fst (snd c')) (snd (snd c')) st0 = Some (Inr st1) \<longrightarrow> I st1"
    using Cons.prems(1) by (meson list.set_intros(2))
  note ih = Cons.IH[OF st i1 r]
  from ih have len: "length rest = length calls" by blast
  have a: "\<forall>k < length (c # calls). I (fst (lg ! k))"
  proof (intro allI impI)
    fix k assume "k < length (c # calls)"
    then show "I (fst (lg ! k))"
      using ih Cons.prems(2) by (cases k) (simp_all add: lg)
  qed
  have b: "\<forall>k < length (c # calls).
            snd (lg ! k) = scheduled_handlers (fst ((c # calls) ! k)) (fst (snd ((c # calls) ! k)))
                             (snd (snd ((c # calls) ! k))) (fst (lg ! k)) \<and>
            (\<exists>st''. evaluate_scheduled env (fst ((c # calls) ! k)) (fst (snd ((c # calls) ! k)))
                       (snd (snd ((c # calls) ! k))) (fst (lg ! k)) = Some (Inr st''))"
  proof (intro allI impI)
    fix k assume "k < length (c # calls)"
    then show "snd (lg ! k) = scheduled_handlers (fst ((c # calls) ! k)) (fst (snd ((c # calls) ! k)))
                             (snd (snd ((c # calls) ! k))) (fst (lg ! k)) \<and>
            (\<exists>st''. evaluate_scheduled env (fst ((c # calls) ! k)) (fst (snd ((c # calls) ! k)))
                       (snd (snd ((c # calls) ! k))) (fst (lg ! k)) = Some (Inr st''))"
      using ih ev by (cases k) (simp_all add: lg c)
  qed
  from len a b ih show ?case by (simp add: lg)
qed

lemma wall_inf_up:
  "wall_dt H = Inf \<Longrightarrow> 0 \<le> x \<Longrightarrow> wall_up H x \<longleftrightarrow> last_wall_div H < 0"
  by (simp add: wall_up_def)

lemma wall_silent_step:
  assumes ev: "evaluate_scheduled env w s i st = Some (Inr st')"
    and I: "h \<in> set (handlers st) \<and> wall_dt (hstore st h) = Inf \<and> 0 \<le> last_wall_div (hstore st h)"
    and nn: "0 \<le> w"
  shows "h \<in> set (handlers st') \<and> wall_dt (hstore st' h) = Inf \<and> 0 \<le> last_wall_div (hstore st' h)"
proof -
  from I have h: "h \<in> set (handlers st)" and c: "wall_dt (hstore st h) = Inf"
    and l: "0 \<le> last_wall_div (hstore st h)" by blast+
  from eval_fires(1)[OF ev h] obtain wd sd idv where
    fl: "float_floordiv w (wall_dt (hstore st h)) = Inr wd"
        "float_floordiv s (sim_dt (hstore st h)) = Inr sd"
        "int_floordiv i (iter (hstore st h)) = Inr idv" and
    r: "recorded (hstore st' h) =
          (if h \<in> set (scheduled_handlers w s i st) then (wd, sd, idv) else recorded (hstore st h))"
    by blast
  from fl c nn have "wd = 0" by simp
  with r l have "0 \<le> last_wall_div (hstore st' h)"
    by (cases "h \<in> set (scheduled_handlers w s i st)") (simp_all add: recorded_def)
  with eval_fires(2)[OF ev h] eval_fires(5)[OF ev h] c show ?thesis by simp
qed

lemma wall_fired_zero:
  assumes ev: "evaluate_scheduled env w s i st = Some (Inr st')" and h: "h \<in> set (handlers st)"
    and f: "h \<in> set (scheduled_handlers w s i st)"
    and c: "wall_dt (hstore st h) = Inf" and nn: "0 \<le> w"
  shows "last_wall_div (hstore st' h) = 0"
proof -
  from eval_fires(1)[OF ev h] obtain wd sd idv where
    fl: "float_floordiv w (wall_dt (hstore st h)) = Inr wd"
        "float_floordiv s (sim_dt (hstore st h)) = Inr sd"
        "int_floordiv i (iter (hstore st h)) = Inr idv" and
    r: "recorded (hstore st' h) =
          (if h \<in> set (scheduled_handlers w s i st) then (wd, sd, idv) else recorded (hstore st h))"
    by blast
  from fl c nn have "wd = 0" by simp
  with r f show ?thesis by (simp add: recorded_def)
qed

lemma wall_silent_run:
  assumes run: "evaluate_scheduled_run env calls st = Some (Inr (lg, st'))"
    and h: "h \<in> set (handlers st)"
    and c: "wall_dt (hstore st h) = Inf" and l: "0 \<le> last_wall_div (hstore st h)"
    and nn: "\<forall>c \<in> set calls. 0 \<le> fst c"
  shows "length lg = length calls \<and>
         (\<forall>k < length calls. \<not> wall_up (hstore (fst (lg ! k)) h) (fst (calls ! k)))"
proof -
  let ?I = "\<lambda>st. h \<in> set (handlers st) \<and> wall_dt (hstore st h) = Inf \<and> 0 \<le> last_wall_div (hstore st h)"
  have "length lg = length calls \<and> (\<forall>k < length calls. ?I (fst (lg ! k)))"
  proof (rule run_invariant[where I = ?I and env = env and st = st and st' = st',
        THEN conjunct1])
    show "\<forall>c st0 st1. c \<in> set calls \<and> ?I st0 \<and>
        evaluate_scheduled env (fst c) (fst (snd c)) (snd (snd c)) st0 = Some (Inr st1) \<longrightarrow> ?I st1"
    proof (intro allI impI)
    fix c st0 st1
    assume a: "c \<in> set calls \<and> ?I st0 \<and>
        evaluate_scheduled env (fst c) (fst (snd c)) (snd (snd c)) st0 = Some (Inr st1)"
    then have i: "?I st0"
      and ev: "evaluate_scheduled env (fst c) (fst (snd c)) (snd (snd c)) st0 = Some (Inr st1)"
      by blast+
    from a nn have "0 \<le> fst c" by blast
    from wall_silent_step[OF ev i this] show "?I st1" .
    qed
  next
    from h c l show "?I st" by blast
  next
    from run show "evaluate_scheduled_run env calls st = Some (Inr (lg, st'))" .
  qed
  moreover have "\<And>k. k < length calls \<Longrightarrow> ?I (fst (lg ! k)) \<Longrightarrow>
      \<not> wall_up (hstore (fst (lg ! k)) h) (fst (calls ! k))"
  proof -
    fix k assume k: "k < length calls" and i: "?I (fst (lg ! k))"
    from k nn have "0 \<le> fst (calls ! k)" by simp
    with i show "\<not> wall_up (hstore (fst (lg ! k)) h) (fst (calls ! k))"
      by (simp add: wall_inf_up)
  qed
  ultimately show ?thesis by blast
qed

lemma sim_inf_up:
  "sim_dt H = Inf \<Longrightarrow> 0 \<le> x \<Longrightarrow> sim_up H x \<longleftrightarrow> last_sim_div H < 0"
  by (simp add: sim_up_def)

lemma sim_silent_step:
  assumes ev: "evaluate_scheduled env w s i st = Some (Inr st')"
    and I: "h \<in> set (handlers st) \<and> sim_dt (hstore st h) = Inf \<and> 0 \<le> last_sim_div (hstore st h)"
    and nn: "0 \<le> s"
  shows "h \<in> set (handlers st') \<and> sim_dt (hstore st' h) = Inf \<and> 0 \<le> last_sim_div (hstore st' h)"
proof -
  from I have h: "h \<in> set (handlers st)" and c: "sim_dt (hstore st h) = Inf"
    and l: "0 \<le> last_sim_div (hstore st h)" by blast+
  from eval_fires(1)[OF ev h] obtain wd sd idv where
    fl: "float_floordiv w (wall_dt (hstore st h)) = Inr wd"
        "float_floordiv s (sim_dt (hstore st h)) = Inr sd"
        "int_floordiv i (iter (hstore st h)) = Inr idv" and
    r: "recorded (hstore st' h) =
          (if h \<in> set (scheduled_handlers w s i st) then (wd, sd, idv) else recorded (hstore st h))"
    by blast
  from fl c nn have "sd = 0" by simp
  with r l have "0 \<le> last_sim_div (hstore st' h)"
    by (cases "h \<in> set (scheduled_handlers w s i st)") (simp_all add: recorded_def)
  with eval_fires(3)[OF ev h] eval_fires(5)[OF ev h] c show ?thesis by simp
qed

lemma sim_fired_zero:
  assumes ev: "evaluate_scheduled env w s i st = Some (Inr st')" and h: "h \<in> set (handlers st)"
    and f: "h \<in> set (scheduled_handlers w s i st)"
    and c: "sim_dt (hstore st h) = Inf" and nn: "0 \<le> s"
  shows "last_sim_div (hstore st' h) = 0"
proof -
  from eval_fires(1)[OF ev h] obtain wd sd idv where
    fl: "float_floordiv w (wall_dt (hstore st h)) = Inr wd"
        "float_floordiv s (sim_dt (hstore st h)) = Inr sd"
        "int_floordiv i (iter (hstore st h)) = Inr idv" and
    r: "recorded (hstore st' h) =
          (if h \<in> set (scheduled_handlers w s i st) then (wd, sd, idv) else recorded (hstore st h))"
    by blast
  from fl c nn have "sd = 0" by simp
  with r f show ?thesis by (simp add: recorded_def)
qed

lemma sim_silent_run:
  assumes run: "evaluate_scheduled_run env calls st = Some (Inr (lg, st'))"
    and h: "h \<in> set (handlers st)"
    and c: "sim_dt (hstore st h) = Inf" and l: "0 \<le> last_sim_div (hstore st h)"
    and nn: "\<forall>c \<in> set calls. 0 \<le> (\<lambda>c. fst (snd c)) c"
  shows "length lg = length calls \<and>
         (\<forall>k < length calls. \<not> sim_up (hstore (fst (lg ! k)) h) ((\<lambda>c. fst (snd c)) (calls ! k)))"
proof -
  let ?I = "\<lambda>st. h \<in> set (handlers st) \<and> sim_dt (hstore st h) = Inf \<and> 0 \<le> last_sim_div (hstore st h)"
  have "length lg = length calls \<and> (\<forall>k < length calls. ?I (fst (lg ! k)))"
  proof (rule run_invariant[where I = ?I and env = env and st = st and st' = st',
        THEN conjunct1])
    show "\<forall>c st0 st1. c \<in> set calls \<and> ?I st0 \<and>
        evaluate_scheduled env (fst c) (fst (snd c)) (snd (snd c)) st0 = Some (Inr st1) \<longrightarrow> ?I st1"
    proof (intro allI impI)
    fix c st0 st1
    assume a: "c \<in> set calls \<and> ?I st0 \<and>
        evaluate_scheduled env (fst c) (fst (snd c)) (snd (snd c)) st0 = Some (Inr st1)"
    then have i: "?I st0"
      and ev: "evaluate_scheduled env (fst c) (fst (snd c)) (snd (snd c)) st0 = Some (Inr st1)"
      by blast+
    from a nn have "0 \<le> (\<lambda>c. fst (snd c)) c" by blast
    from sim_silent_step[OF ev i this] show "?I st1" .
    qed
  next
    from h c l show "?I st" by blast
  next
    from run show "evaluate_scheduled_run env calls st = Some (Inr (lg, st'))" .
  qed
  moreover have "\<And>k. k < length calls \<Longrightarrow> ?I (fst (lg ! k)) \<Longrightarrow>
      \<not> sim_up (hstore (fst (lg ! k)) h) ((\<lambda>c. fst (snd c)) (calls ! k))"
  proof -
    fix k assume k: "k < length calls" and i: "?I (fst (lg ! k))"
    from k nn have "0 \<le> (\<lambda>c. fst (snd c)) (calls ! k)" by simp
    with i show "\<not> sim_up (hstore (fst (lg ! k)) h) ((\<lambda>c. fst (snd c)) (calls ! k))"
      by (simp add: sim_inf_up)
  qed
  ultimately show ?thesis by blast
qed

lemma iter_inf_up:
  "iter H = Inf \<Longrightarrow> 0 \<le> x \<Longrightarrow> iter_up H x \<longleftrightarrow> last_iter_div H < 0"
  by (simp add: iter_up_def)

lemma iter_silent_step:
  assumes ev: "evaluate_scheduled env w s i st = Some (Inr st')"
    and I: "h \<in> set (handlers st) \<and> iter (hstore st h) = Inf \<and> 0 \<le> last_iter_div (hstore st h)"
    and nn: "0 \<le> i"
  shows "h \<in> set (handlers st') \<and> iter (hstore st' h) = Inf \<and> 0 \<le> last_iter_div (hstore st' h)"
proof -
  from I have h: "h \<in> set (handlers st)" and c: "iter (hstore st h) = Inf"
    and l: "0 \<le> last_iter_div (hstore st h)" by blast+
  from eval_fires(1)[OF ev h] obtain wd sd idv where
    fl: "float_floordiv w (wall_dt (hstore st h)) = Inr wd"
        "float_floordiv s (sim_dt (hstore st h)) = Inr sd"
        "int_floordiv i (iter (hstore st h)) = Inr idv" and
    r: "recorded (hstore st' h) =
          (if h \<in> set (scheduled_handlers w s i st) then (wd, sd, idv) else recorded (hstore st h))"
    by blast
  from fl c nn have "idv = 0" by simp
  with r l have "0 \<le> last_iter_div (hstore st' h)"
    by (cases "h \<in> set (scheduled_handlers w s i st)") (simp_all add: recorded_def)
  with eval_fires(4)[OF ev h] eval_fires(5)[OF ev h] c show ?thesis by simp
qed

lemma iter_fired_zero:
  assumes ev: "evaluate_scheduled env w s i st = Some (Inr st')" and h: "h \<in> set (handlers st)"
    and f: "h \<in> set (scheduled_handlers w s i st)"
    and c: "iter (hstore st h) = Inf" and nn: "0 \<le> i"
  shows "last_iter_div (hstore st' h) = 0"
proof -
  from eval_fires(1)[OF ev h] obtain wd sd idv where
    fl: "float_floordiv w (wall_dt (hstore st h)) = Inr wd"
        "float_floordiv s (sim_dt (hstore st h)) = Inr sd"
        "int_floordiv i (iter (hstore st h)) = Inr idv" and
    r: "recorded (hstore st' h) =
          (if h \<in> set (scheduled_handlers w s i st) then (wd, sd, idv) else recorded (hstore st h))"
    by blast
  from fl c nn have "idv = 0" by simp
  with r f show ?thesis by (simp add: recorded_def)
qed

lemma iter_silent_run:
  assumes run: "evaluate_scheduled_run env calls st = Some (Inr (lg, st'))"
    and h: "h \<in> set (handlers st)"
    and c: "iter (hstore st h) = Inf" and l: "0 \<le> last_iter_div (hstore st h)"
    and nn: "\<forall>c \<in> set calls. 0 \<le> (\<lambda>c. snd (snd c)) c"
  shows "length lg = length calls \<and>
         (\<forall>k < length calls. \<not> iter_up (hstore (fst (lg ! k)) h) ((\<lambda>c. snd (snd c)) (calls ! k)))"
proof -
  let ?I = "\<lambda>st. h \<in> set (handlers st) \<and> iter (hstore st h) = Inf \<and> 0 \<le> last_iter_div (hstore st h)"
  have "length lg = length calls \<and> (\<forall>k < length calls. ?I (fst (lg ! k)))"
  proof (rule run_invariant[where I = ?I and env = env and st = st and st' = st',
        THEN conjunct1])
    show "\<forall>c st0 st1. c \<in> set calls \<and> ?I st0 \<and>
        evaluate_scheduled env (fst c) (fst (snd c)) (snd (snd c)) st0 = Some (Inr st1) \<longrightarrow> ?I st1"
    proof (intro allI impI)
    fix c st0 st1
    assume a: "c \<in> set calls \<and> ?I st0 \<and>
        evaluate_scheduled env (fst c) (fst (snd c)) (snd (snd c)) st0 = Some (Inr st1)"
    then have i: "?I st0"
      and ev: "evaluate_scheduled env (fst c) (fst (snd c)) (snd (snd c)) st0 = Some (Inr st1)"
      by blast+
    from a nn have "0 \<le> (\<lambda>c. snd (snd c)) c" by blast
    from iter_silent_step[OF ev i this] show "?I st1" .
    qed
  next
    from h c l show "?I st" by blast
  next
    from run show "evaluate_scheduled_run env calls st = Some (Inr (lg, st'))" .
  qed
  moreover have "\<And>k. k < length calls \<Longrightarrow> ?I (fst (lg ! k)) \<Longrightarrow>
      \<not> iter_up (hstore (fst (lg ! k)) h) ((\<lambda>c. snd (snd c)) (calls ! k))"
  proof -
    fix k assume k: "k < length calls" and i: "?I (fst (lg ! k))"
    from k nn have "0 \<le> (\<lambda>c. snd (snd c)) (calls ! k)" by simp
    with i show "\<not> iter_up (hstore (fst (lg ! k)) h) ((\<lambda>c. snd (snd c)) (calls ! k))"
      by (simp add: iter_inf_up)
  qed
  ultimately show ?thesis by blast
qed


lemma ups_iff_sel:
  assumes sel: "select_scheduled w s i st = Inr (l, st1)" and h: "h \<in> set (handlers st)"
  shows "h \<in> set l \<longleftrightarrow>
           wall_up (hstore st h) w \<or> sim_up (hstore st h) s \<or> iter_up (hstore st h) i"
proof -
  from fires_iff_general[OF sel h] obtain wd sd idv where
    "float_floordiv w (wall_dt (hstore st h)) = Inr wd"
    "float_floordiv s (sim_dt (hstore st h)) = Inr sd"
    "int_floordiv i (iter (hstore st h)) = Inr idv"
    "h \<in> set l \<longleftrightarrow> wd > last_wall_div (hstore st h) \<or> sd > last_sim_div (hstore st h)
              \<or> idv > last_iter_div (hstore st h)"
    by blast
  then show ?thesis by (simp add: wall_up_def sim_up_def iter_up_def)
qed

lemma ups_iff_ev:
  assumes ev: "evaluate_scheduled env w s i st = Some (Inr st')" and h: "h \<in> set (handlers st)"
  shows "h \<in> set (scheduled_handlers w s i st) \<longleftrightarrow>
           wall_up (hstore st h) w \<or> sim_up (hstore st h) s \<or> iter_up (hstore st h) i"
proof -
  from eval_step[OF ev] have
    "select_scheduled w s i st = Inr (scheduled_handlers w s i st, selected_state w s i st)"
    by blast
  from ups_iff_sel[OF this h] show ?thesis .
qed

lemma default_silent_run:
  assumes run: "evaluate_scheduled_run env calls st = Some (Inr (lg, st'))"
    and h: "h \<in> set (handlers st)"
    and c: "wall_dt (hstore st h) = Inf" "sim_dt (hstore st h) = Inf" "iter (hstore st h) = Inf"
    and l: "0 \<le> last_wall_div (hstore st h)" "0 \<le> last_sim_div (hstore st h)"
           "0 \<le> last_iter_div (hstore st h)"
    and nn: "\<forall>c \<in> set calls. 0 \<le> fst c \<and> 0 \<le> fst (snd c) \<and> 0 \<le> snd (snd c)"
  shows "length lg = length calls \<and> (\<forall>k < length calls. h \<notin> set (snd (lg ! k)))"
proof -
  from nn have n1: "\<forall>c \<in> set calls. 0 \<le> fst c" and n2: "\<forall>c \<in> set calls. 0 \<le> (\<lambda>c. fst (snd c)) c"
    and n3: "\<forall>c \<in> set calls. 0 \<le> (\<lambda>c. snd (snd c)) c" by simp_all
  note w = wall_silent_run[OF run h c(1) l(1) n1]
  note s = sim_silent_run[OF run h c(2) l(2) n2]
  note i = iter_silent_run[OF run h c(3) l(3) n3]
  let ?I = "\<lambda>st. h \<in> set (handlers st)"
  have inv: "(length lg = length calls \<and> (\<forall>k < length calls. ?I (fst (lg ! k)))) \<and>
         (\<forall>k < length calls.
            snd (lg ! k) = scheduled_handlers (fst (calls ! k)) (fst (snd (calls ! k)))
                             (snd (snd (calls ! k))) (fst (lg ! k)) \<and>
            (\<exists>st''. evaluate_scheduled env (fst (calls ! k)) (fst (snd (calls ! k)))
                       (snd (snd (calls ! k))) (fst (lg ! k)) = Some (Inr st''))) \<and>
         ?I st'"
  proof (rule run_invariant[where I = ?I and env = env and st = st and st' = st'])
    show "\<forall>c st0 st1. c \<in> set calls \<and> ?I st0 \<and>
        evaluate_scheduled env (fst c) (fst (snd c)) (snd (snd c)) st0 = Some (Inr st1) \<longrightarrow> ?I st1"
      using eval_fires(5) by blast
  next
    from h show "?I st" .
  next
    from run show "evaluate_scheduled_run env calls st = Some (Inr (lg, st'))" .
  qed
  have "\<forall>k < length calls. h \<notin> set (snd (lg ! k))"
  proof (intro allI impI)
    fix k assume k: "k < length calls"
    let ?s = "fst (lg ! k)"
    from inv k have hk: "h \<in> set (handlers ?s)" by blast
    from inv k obtain st'' where
      sn: "snd (lg ! k) = scheduled_handlers (fst (calls ! k)) (fst (snd (calls ! k)))
                             (snd (snd (calls ! k))) ?s" and
      ev: "evaluate_scheduled env (fst (calls ! k)) (fst (snd (calls ! k)))
                       (snd (snd (calls ! k))) ?s = Some (Inr st'')" by blast
    from w s i k have "\<not> wall_up (hstore ?s h) (fst (calls ! k))"
      "\<not> sim_up (hstore ?s h) (fst (snd (calls ! k)))"
      "\<not> iter_up (hstore ?s h) (snd (snd (calls ! k)))" by simp_all
    with ups_iff_ev[OF ev hk] sn show "h \<notin> set (snd (lg ! k))" by simp
  qed
  with inv show ?thesis by blast
qed

lemma default_fresh_run:
  assumes run: "evaluate_scheduled_run env (c # calls) st = Some (Inr (lg, st'))"
    and h: "h \<in> set (handlers st)"
    and cd: "wall_dt (hstore st h) = Inf" "sim_dt (hstore st h) = Inf" "iter (hstore st h) = Inf"
    and fresh: "recorded (hstore st h) = (-1, -1, -1)"
    and nn: "\<forall>c \<in> set (c # calls). 0 \<le> fst c \<and> 0 \<le> fst (snd c) \<and> 0 \<le> snd (snd c)"
  shows "length lg = Suc (length calls) \<and> h \<in> set (snd (lg ! 0)) \<and>
         (\<forall>k. 0 < k \<and> k \<le> length calls \<longrightarrow> h \<notin> set (snd (lg ! k)))"
proof -
  obtain w s i where c: "c = (w, s, i)" by (cases c) auto
  from nn c have n0: "0 \<le> w" "0 \<le> s" "0 \<le> i" by simp_all
  from nn have nr: "\<forall>c \<in> set calls. 0 \<le> fst c \<and> 0 \<le> fst (snd c) \<and> 0 \<le> snd (snd c)" by simp
  from run_Cons[OF run[unfolded c]] obtain st1 rest where
    ev: "evaluate_scheduled env w s i st = Some (Inr st1)" and
    r: "evaluate_scheduled_run env calls st1 = Some (Inr (rest, st'))" and
    lg: "lg = (st, scheduled_handlers w s i st) # rest" by blast
  from fresh have "last_wall_div (hstore st h) < 0" by (simp add: recorded_def)
  with wall_inf_up[OF cd(1) n0(1)] have "wall_up (hstore st h) w" by simp
  with ups_iff_ev[OF ev h] have f: "h \<in> set (scheduled_handlers w s i st)" by simp
  note z = wall_fired_zero[OF ev h f cd(1) n0(1)] sim_fired_zero[OF ev h f cd(2) n0(2)]
    iter_fired_zero[OF ev h f cd(3) n0(3)]
  note p = eval_fires(2-5)[OF ev h]
  have d: "length rest = length calls \<and> (\<forall>k < length calls. h \<notin> set (snd (rest ! k)))"
    by (rule default_silent_run[OF r p(4)]) (simp_all add: p cd z nr)
  have "\<forall>k. 0 < k \<and> k \<le> length calls \<longrightarrow> h \<notin> set (snd (lg ! k))"
  proof (intro allI impI)
    fix k assume "0 < k \<and> k \<le> length calls"
    then obtain j where "k = Suc j" "j < length calls" by (cases k) auto
    with d show "h \<notin> set (snd (lg ! k))" by (simp add: lg)
  qed
  with d f show ?thesis by (simp add: lg)
qed

lemma one_call:
  assumes run: "evaluate_scheduled_run env [(w1, s1, i1)] st = Some (Inr r)"
    and h: "h \<in> set (handlers st)"
    and la: "recorded (hstore st h) = (a, b, c)"
    and fl1: "float_floordiv w1 (wall_dt (hstore st h)) = Inr wd1"
            "float_floordiv s1 (sim_dt (hstore st h)) = Inr sd1"
            "int_floordiv i1 (iter (hstore st h)) = Inr id1"
    and up1: "wd1 > a \<or> sd1 > b \<or> id1 > c"
  shows "firing_log h (evaluate_scheduled_run env [(w1, s1, i1)] st)
         = Some (Inr ([((a, b, c), True)], (wd1, sd1, id1)))"
proof -
  obtain lg st3 where r: "r = (lg, st3)" by (cases r) auto
  from run_Cons[OF run[unfolded r]] obtain st1 r1 where
    e1: "evaluate_scheduled env w1 s1 i1 st = Some (Inr st1)" and
    n1: "evaluate_scheduled_run env [] st1 = Some (Inr (r1, st3))" and
    l1: "lg = (st, scheduled_handlers w1 s1 i1 st) # r1" by blast
  from run_Nil[OF n1] have l3: "r1 = []" "st3 = st1" by simp_all
  note u1 = eval_recorded[OF e1 h fl1 la]
  from u1(1) up1 have f1: "h \<in> set (scheduled_handlers w1 s1 i1 st)" by simp
  from u1(2) f1 have q1: "recorded (hstore st1 h) = (wd1, sd1, id1)" by simp
  show ?thesis
    unfolding run r l1 l3 firing_log_def
    using la q1 f1 by simp
qed

text \<open>
  Claim C4, as amended. A registered handler is scheduled by a call of
  \<open>evaluate_scheduled\<close> exactly when one of its three channels is up. A channel whose
  cadence is infinite has the divisor 0 at every time that is not negative, so it is up
  exactly while the divisor recorded for it is still negative (the record starts at
  \<open>-1\<close>). Whenever the handler is scheduled at such a time, whatever the channel that
  caused it, the record of the infinite channel becomes 0, and from a record that is not
  negative the channel is up at no later call with times that are not negative. Hence,
  over calls with arguments that are not negative, a handler that leaves all three
  cadences infinite is scheduled at no call once its records are not negative, and a
  fresh one is scheduled by the first call and by no later one.
\<close>

theorem infinite_cadence_fires_once:
  assumes h: "h \<in> set (handlers st)"
  shows "((\<forall>k \<in> set (handlers st). wall_dt (hstore st k) \<noteq> Fin 0 \<and> sim_dt (hstore st k) \<noteq> Fin 0 \<and>
             iter (hstore st k) \<noteq> Fin 0) \<longrightarrow>
            (h \<in> set (scheduled_handlers w s i st) \<longleftrightarrow>
               wall_up (hstore st h) w \<or> sim_up (hstore st h) s \<or> iter_up (hstore st h) i)) \<and>
         (wall_dt (hstore st h) = Inf \<and> 0 \<le> w \<longrightarrow>
            (wall_up (hstore st h) w \<longleftrightarrow> last_wall_div (hstore st h) < 0)) \<and>
         (sim_dt (hstore st h) = Inf \<and> 0 \<le> s \<longrightarrow>
            (sim_up (hstore st h) s \<longleftrightarrow> last_sim_div (hstore st h) < 0)) \<and>
         (iter (hstore st h) = Inf \<and> 0 \<le> i \<longrightarrow>
            (iter_up (hstore st h) i \<longleftrightarrow> last_iter_div (hstore st h) < 0)) \<and>
         (\<forall>st'. evaluate_scheduled env w s i st = Some (Inr st') \<and>
                h \<in> set (scheduled_handlers w s i st) \<longrightarrow>
            (wall_dt (hstore st h) = Inf \<and> 0 \<le> w \<longrightarrow> last_wall_div (hstore st' h) = 0) \<and>
            (sim_dt (hstore st h) = Inf \<and> 0 \<le> s \<longrightarrow> last_sim_div (hstore st' h) = 0) \<and>
            (iter (hstore st h) = Inf \<and> 0 \<le> i \<longrightarrow> last_iter_div (hstore st' h) = 0)) \<and>
         (\<forall>calls lg st'. evaluate_scheduled_run env calls st = Some (Inr (lg, st')) \<longrightarrow>
            length lg = length calls \<and>
            (wall_dt (hstore st h) = Inf \<and> 0 \<le> last_wall_div (hstore st h) \<and>
             (\<forall>c \<in> set calls. 0 \<le> fst c) \<longrightarrow>
               (\<forall>k < length calls. \<not> wall_up (hstore (fst (lg ! k)) h) (fst (calls ! k)))) \<and>
            (sim_dt (hstore st h) = Inf \<and> 0 \<le> last_sim_div (hstore st h) \<and>
             (\<forall>c \<in> set calls. 0 \<le> fst (snd c)) \<longrightarrow>
               (\<forall>k < length calls. \<not> sim_up (hstore (fst (lg ! k)) h) (fst (snd (calls ! k))))) \<and>
            (iter (hstore st h) = Inf \<and> 0 \<le> last_iter_div (hstore st h) \<and>
             (\<forall>c \<in> set calls. 0 \<le> snd (snd c)) \<longrightarrow>
               (\<forall>k < length calls. \<not> iter_up (hstore (fst (lg ! k)) h) (snd (snd (calls ! k))))) \<and>
            (wall_dt (hstore st h) = Inf \<and> sim_dt (hstore st h) = Inf \<and> iter (hstore st h) = Inf \<and>
             0 \<le> last_wall_div (hstore st h) \<and> 0 \<le> last_sim_div (hstore st h) \<and>
             0 \<le> last_iter_div (hstore st h) \<and>
             (\<forall>c \<in> set calls. 0 \<le> fst c \<and> 0 \<le> fst (snd c) \<and> 0 \<le> snd (snd c)) \<longrightarrow>
               (\<forall>k < length calls. h \<notin> set (snd (lg ! k)))) \<and>
            (wall_dt (hstore st h) = Inf \<and> sim_dt (hstore st h) = Inf \<and> iter (hstore st h) = Inf \<and>
             recorded (hstore st h) = (-1, -1, -1) \<and> calls \<noteq> [] \<and>
             (\<forall>c \<in> set calls. 0 \<le> fst c \<and> 0 \<le> fst (snd c) \<and> 0 \<le> snd (snd c)) \<longrightarrow>
               h \<in> set (snd (lg ! 0)) \<and>
               (\<forall>k. 0 < k \<and> k < length calls \<longrightarrow> h \<notin> set (snd (lg ! k)))))"
proof -
  have a: "(\<forall>k \<in> set (handlers st). wall_dt (hstore st k) \<noteq> Fin 0 \<and> sim_dt (hstore st k) \<noteq> Fin 0 \<and>
             iter (hstore st k) \<noteq> Fin 0) \<longrightarrow>
            (h \<in> set (scheduled_handlers w s i st) \<longleftrightarrow>
               wall_up (hstore st h) w \<or> sim_up (hstore st h) s \<or> iter_up (hstore st h) i)"
    using ups_iff_sel[OF select_scheduled_total h] by blast
  have b: "wall_dt (hstore st h) = Inf \<and> 0 \<le> w \<longrightarrow>
            (wall_up (hstore st h) w \<longleftrightarrow> last_wall_div (hstore st h) < 0)"
    "sim_dt (hstore st h) = Inf \<and> 0 \<le> s \<longrightarrow>
            (sim_up (hstore st h) s \<longleftrightarrow> last_sim_div (hstore st h) < 0)"
    "iter (hstore st h) = Inf \<and> 0 \<le> i \<longrightarrow>
            (iter_up (hstore st h) i \<longleftrightarrow> last_iter_div (hstore st h) < 0)"
    using wall_inf_up sim_inf_up iter_inf_up by blast+
  have c: "\<forall>st'. evaluate_scheduled env w s i st = Some (Inr st') \<and>
                h \<in> set (scheduled_handlers w s i st) \<longrightarrow>
            (wall_dt (hstore st h) = Inf \<and> 0 \<le> w \<longrightarrow> last_wall_div (hstore st' h) = 0) \<and>
            (sim_dt (hstore st h) = Inf \<and> 0 \<le> s \<longrightarrow> last_sim_div (hstore st' h) = 0) \<and>
            (iter (hstore st h) = Inf \<and> 0 \<le> i \<longrightarrow> last_iter_div (hstore st' h) = 0)"
    using wall_fired_zero[OF _ h] sim_fired_zero[OF _ h] iter_fired_zero[OF _ h] by blast
  have d: "\<forall>calls lg st'. evaluate_scheduled_run env calls st = Some (Inr (lg, st')) \<longrightarrow>
            length lg = length calls \<and>
            (wall_dt (hstore st h) = Inf \<and> 0 \<le> last_wall_div (hstore st h) \<and>
             (\<forall>c \<in> set calls. 0 \<le> fst c) \<longrightarrow>
               (\<forall>k < length calls. \<not> wall_up (hstore (fst (lg ! k)) h) (fst (calls ! k)))) \<and>
            (sim_dt (hstore st h) = Inf \<and> 0 \<le> last_sim_div (hstore st h) \<and>
             (\<forall>c \<in> set calls. 0 \<le> fst (snd c)) \<longrightarrow>
               (\<forall>k < length calls. \<not> sim_up (hstore (fst (lg ! k)) h) (fst (snd (calls ! k))))) \<and>
            (iter (hstore st h) = Inf \<and> 0 \<le> last_iter_div (hstore st h) \<and>
             (\<forall>c \<in> set calls. 0 \<le> snd (snd c)) \<longrightarrow>
               (\<forall>k < length calls. \<not> iter_up (hstore (fst (lg ! k)) h) (snd (snd (calls ! k))))) \<and>
            (wall_dt (hstore st h) = Inf \<and> sim_dt (hstore st h) = Inf \<and> iter (hstore st h) = Inf \<and>
             0 \<le> last_wall_div (hstore st h) \<and> 0 \<le> last_sim_div (hstore st h) \<and>
             0 \<le> last_iter_div (hstore st h) \<and>
             (\<forall>c \<in> set calls. 0 \<le> fst c \<and> 0 \<le> fst (snd c) \<and> 0 \<le> snd (snd c)) \<longrightarrow>
               (\<forall>k < length calls. h \<notin> set (snd (lg ! k)))) \<and>
            (wall_dt (hstore st h) = Inf \<and> sim_dt (hstore st h) = Inf \<and> iter (hstore st h) = Inf \<and>
             recorded (hstore st h) = (-1, -1, -1) \<and> calls \<noteq> [] \<and>
             (\<forall>c \<in> set calls. 0 \<le> fst c \<and> 0 \<le> fst (snd c) \<and> 0 \<le> snd (snd c)) \<longrightarrow>
               h \<in> set (snd (lg ! 0)) \<and>
               (\<forall>k. 0 < k \<and> k < length calls \<longrightarrow> h \<notin> set (snd (lg ! k))))"
  proof (intro allI impI)
    fix calls lg st'
    assume run: "evaluate_scheduled_run env calls st = Some (Inr (lg, st'))"
    have len: "length lg = length calls"
      using run_invariant[where I = "\<lambda>s. True", OF _ _ run] by simp
    have d1: "wall_dt (hstore st h) = Inf \<and> 0 \<le> last_wall_div (hstore st h) \<and>
             (\<forall>c \<in> set calls. 0 \<le> fst c) \<longrightarrow>
               (\<forall>k < length calls. \<not> wall_up (hstore (fst (lg ! k)) h) (fst (calls ! k)))"
      using wall_silent_run[OF run h] by blast
    have d2: "sim_dt (hstore st h) = Inf \<and> 0 \<le> last_sim_div (hstore st h) \<and>
             (\<forall>c \<in> set calls. 0 \<le> fst (snd c)) \<longrightarrow>
               (\<forall>k < length calls. \<not> sim_up (hstore (fst (lg ! k)) h) (fst (snd (calls ! k))))"
      using sim_silent_run[OF run h] by blast
    have d3: "iter (hstore st h) = Inf \<and> 0 \<le> last_iter_div (hstore st h) \<and>
             (\<forall>c \<in> set calls. 0 \<le> snd (snd c)) \<longrightarrow>
               (\<forall>k < length calls. \<not> iter_up (hstore (fst (lg ! k)) h) (snd (snd (calls ! k))))"
      using iter_silent_run[OF run h] by blast
    have d4: "wall_dt (hstore st h) = Inf \<and> sim_dt (hstore st h) = Inf \<and> iter (hstore st h) = Inf \<and>
             0 \<le> last_wall_div (hstore st h) \<and> 0 \<le> last_sim_div (hstore st h) \<and>
             0 \<le> last_iter_div (hstore st h) \<and>
             (\<forall>c \<in> set calls. 0 \<le> fst c \<and> 0 \<le> fst (snd c) \<and> 0 \<le> snd (snd c)) \<longrightarrow>
               (\<forall>k < length calls. h \<notin> set (snd (lg ! k)))"
      using default_silent_run[OF run h] by blast
    have d5: "wall_dt (hstore st h) = Inf \<and> sim_dt (hstore st h) = Inf \<and> iter (hstore st h) = Inf \<and>
             recorded (hstore st h) = (-1, -1, -1) \<and> calls \<noteq> [] \<and>
             (\<forall>c \<in> set calls. 0 \<le> fst c \<and> 0 \<le> fst (snd c) \<and> 0 \<le> snd (snd c)) \<longrightarrow>
               h \<in> set (snd (lg ! 0)) \<and>
               (\<forall>k. 0 < k \<and> k < length calls \<longrightarrow> h \<notin> set (snd (lg ! k)))"
    proof
      assume p: "wall_dt (hstore st h) = Inf \<and> sim_dt (hstore st h) = Inf \<and> iter (hstore st h) = Inf \<and>
             recorded (hstore st h) = (-1, -1, -1) \<and> calls \<noteq> [] \<and>
             (\<forall>c \<in> set calls. 0 \<le> fst c \<and> 0 \<le> fst (snd c) \<and> 0 \<le> snd (snd c))"
      then obtain c0 rest where cs: "calls = c0 # rest" by (cases calls) auto
      from p have cd: "wall_dt (hstore st h) = Inf" "sim_dt (hstore st h) = Inf"
        "iter (hstore st h) = Inf" and fr: "recorded (hstore st h) = (-1, -1, -1)"
        and nn: "\<forall>c \<in> set (c0 # rest). 0 \<le> fst c \<and> 0 \<le> fst (snd c) \<and> 0 \<le> snd (snd c)"
        unfolding cs by blast+
      from default_fresh_run[OF run[unfolded cs] h cd fr nn]
      have "h \<in> set (snd (lg ! 0))"
        "\<forall>k. 0 < k \<and> k \<le> length rest \<longrightarrow> h \<notin> set (snd (lg ! k))" by blast+
      then show "h \<in> set (snd (lg ! 0)) \<and>
               (\<forall>k. 0 < k \<and> k < length calls \<longrightarrow> h \<notin> set (snd (lg ! k)))"
        by (simp add: cs less_Suc_eq_le)
    qed
    from len d1 d2 d3 d4 d5
    show "length lg = length calls \<and>
            (wall_dt (hstore st h) = Inf \<and> 0 \<le> last_wall_div (hstore st h) \<and>
             (\<forall>c \<in> set calls. 0 \<le> fst c) \<longrightarrow>
               (\<forall>k < length calls. \<not> wall_up (hstore (fst (lg ! k)) h) (fst (calls ! k)))) \<and>
            (sim_dt (hstore st h) = Inf \<and> 0 \<le> last_sim_div (hstore st h) \<and>
             (\<forall>c \<in> set calls. 0 \<le> fst (snd c)) \<longrightarrow>
               (\<forall>k < length calls. \<not> sim_up (hstore (fst (lg ! k)) h) (fst (snd (calls ! k))))) \<and>
            (iter (hstore st h) = Inf \<and> 0 \<le> last_iter_div (hstore st h) \<and>
             (\<forall>c \<in> set calls. 0 \<le> snd (snd c)) \<longrightarrow>
               (\<forall>k < length calls. \<not> iter_up (hstore (fst (lg ! k)) h) (snd (snd (calls ! k))))) \<and>
            (wall_dt (hstore st h) = Inf \<and> sim_dt (hstore st h) = Inf \<and> iter (hstore st h) = Inf \<and>
             0 \<le> last_wall_div (hstore st h) \<and> 0 \<le> last_sim_div (hstore st h) \<and>
             0 \<le> last_iter_div (hstore st h) \<and>
             (\<forall>c \<in> set calls. 0 \<le> fst c \<and> 0 \<le> fst (snd c) \<and> 0 \<le> snd (snd c)) \<longrightarrow>
               (\<forall>k < length calls. h \<notin> set (snd (lg ! k)))) \<and>
            (wall_dt (hstore st h) = Inf \<and> sim_dt (hstore st h) = Inf \<and> iter (hstore st h) = Inf \<and>
             recorded (hstore st h) = (-1, -1, -1) \<and> calls \<noteq> [] \<and>
             (\<forall>c \<in> set calls. 0 \<le> fst c \<and> 0 \<le> fst (snd c) \<and> 0 \<le> snd (snd c)) \<longrightarrow>
               h \<in> set (snd (lg ! 0)) \<and>
               (\<forall>k. 0 < k \<and> k < length calls \<longrightarrow> h \<notin> set (snd (lg ! k))))"
      by (intro conjI)
  qed
  from a b c d show ?thesis by (intro conjI)
qed

theorem infinite_cadence_fires_once_witness:
  "0 \<in> set (handlers (single_handler_state (Handler_init None Inf (Fin 1) Inf (SystemHandler True)))) \<and>
   wall_up (hstore (single_handler_state (Handler_init None Inf (Fin 1) Inf (SystemHandler True))) 0) 0 \<and>
   0 \<in> set (scheduled_handlers 0 0 0
              (single_handler_state (Handler_init None Inf (Fin 1) Inf (SystemHandler True)))) \<and>
   evaluate_scheduled no_files 0 0 0
       (single_handler_state (Handler_init None Inf (Fin 1) Inf (SystemHandler True)))
     = Some (Inr (selected_state 0 0 0
          (single_handler_state (Handler_init None Inf (Fin 1) Inf (SystemHandler True))))) \<and>
   last_wall_div (hstore (selected_state 0 0 0
       (single_handler_state (Handler_init None Inf (Fin 1) Inf (SystemHandler True)))) 0) = 0 \<and>
   last_iter_div (hstore (selected_state 0 0 0
       (single_handler_state (Handler_init None Inf (Fin 1) Inf (SystemHandler True)))) 0) = 0 \<and>
   (\<exists>lg st'. evaluate_scheduled_run no_files [(1 / 10, 1 / 2, 1), (2 / 10, 1, 2)]
        (selected_state 0 0 0
           (single_handler_state (Handler_init None Inf (Fin 1) Inf (SystemHandler True))))
          = Some (Inr (lg, st')) \<and> length lg = 2 \<and>
        \<not> wall_up (hstore (fst (lg ! 0)) 0) (1 / 10) \<and> \<not> wall_up (hstore (fst (lg ! 1)) 0) (2 / 10) \<and>
        \<not> iter_up (hstore (fst (lg ! 0)) 0) 1 \<and> \<not> iter_up (hstore (fst (lg ! 1)) 0) 2) \<and>
   (\<exists>lg st'. evaluate_scheduled_run no_files [(0, 0, 0), (1, 1, 1), (2, 2, 2)]
        (single_handler_state (default_handler (SystemHandler True))) = Some (Inr (lg, st')) \<and>
        length lg = 3 \<and> 0 \<in> set (snd (lg ! 0)) \<and> 0 \<notin> set (snd (lg ! 1)) \<and>
        0 \<notin> set (snd (lg ! 2)))"
proof -
  let ?S = "single_handler_state (Handler_init None Inf (Fin 1) Inf (SystemHandler True))"
  let ?S1 = "selected_state 0 0 0 ?S"
  let ?D = "single_handler_state (default_handler (SystemHandler True))"
  have h: "0 \<in> set (handlers ?S)" by (simp add: single_facts)
  have idle: "idle_state ?S" by (simp add: idle_single)
  have nz: "\<forall>k \<in> set (handlers ?S). wall_dt (hstore ?S k) \<noteq> Fin 0 \<and> sim_dt (hstore ?S k) \<noteq> Fin 0 \<and>
             iter (hstore ?S k) \<noteq> Fin 0"
    by (simp add: single_facts init_facts)
  have cS: "wall_dt (hstore ?S 0) = Inf" "iter (hstore ?S 0) = Inf"
    "last_wall_div (hstore ?S 0) < 0"
    by (simp_all add: single_facts init_facts)
  note T = infinite_cadence_fires_once[OF h, of 0 0 0 no_files]
  from T cS have wu: "wall_up (hstore ?S 0) 0" by simp
  with T nz have f: "0 \<in> set (scheduled_handlers 0 0 0 ?S)" by blast
  note ev = idle_eval(1)[OF idle, of 0 0 0]
  from T ev f cS have z: "last_wall_div (hstore ?S1 0) = 0" "last_iter_div (hstore ?S1 0) = 0"
    by simp_all
  have h1: "0 \<in> set (handlers ?S1)" using idle_eval(3)[OF idle, of 0 0 0] h by simp
  have c1: "wall_dt (hstore ?S1 0) = Inf" "iter (hstore ?S1 0) = Inf"
    using eval_fires(2,4)[OF ev h] cS by simp_all
  from idle_run[OF idle_eval(2)[OF idle, of 0 0 0]] obtain lg st' where
    run1: "evaluate_scheduled_run no_files [(1 / 10, 1 / 2, 1), (2 / 10, 1, 2)] ?S1
             = Some (Inr (lg, st'))" by (metis surj_pair)
  note T1 = infinite_cadence_fires_once[OF h1, of 0 0 0 no_files,
      THEN conjunct2, THEN conjunct2, THEN conjunct2, THEN conjunct2, THEN conjunct2,
      rule_format, OF run1]
  from T1[THEN conjunct1] have len1: "length lg = 2" by simp
  from T1[THEN conjunct2, THEN conjunct1] c1 z have
    "\<forall>k < Suc (Suc 0). \<not> wall_up (hstore (fst (lg ! k)) 0) (fst ([(1 / 10, 1 / 2 :: rat, 1 :: int), (2 / 10, 1, 2)] ! k))"
    by simp
  then have w1: "\<not> wall_up (hstore (fst (lg ! 0)) 0) (1 / 10)"
    "\<not> wall_up (hstore (fst (lg ! 1)) 0) (2 / 10)" by (simp_all add: All_less_Suc)
  from T1[THEN conjunct2, THEN conjunct2, THEN conjunct2, THEN conjunct1] c1 z have
    "\<forall>k < Suc (Suc 0). \<not> iter_up (hstore (fst (lg ! k)) 0)
        (snd (snd ([(1 / 10 :: rat, 1 / 2 :: rat, 1 :: int), (2 / 10, 1, 2)] ! k)))"
    by simp
  then have i1: "\<not> iter_up (hstore (fst (lg ! 0)) 0) 1"
    "\<not> iter_up (hstore (fst (lg ! 1)) 0) 2" by (simp_all add: All_less_Suc)
  have hD: "0 \<in> set (handlers ?D)" by (simp add: single_facts)
  have "idle_state ?D" by (simp add: idle_single default_handler_def)
  from idle_run[OF this] obtain lgD stD where
    runD: "evaluate_scheduled_run no_files [(0, 0, 0), (1, 1, 1), (2, 2, 2)] ?D
             = Some (Inr (lgD, stD))" by (metis surj_pair)
  note TD = infinite_cadence_fires_once[OF hD, of 0 0 0 no_files,
      THEN conjunct2, THEN conjunct2, THEN conjunct2, THEN conjunct2, THEN conjunct2,
      rule_format, OF runD]
  from TD[THEN conjunct1] have lenD: "length lgD = 3" by simp
  have cD: "wall_dt (hstore ?D 0) = Inf" "sim_dt (hstore ?D 0) = Inf" "iter (hstore ?D 0) = Inf"
    "recorded (hstore ?D 0) = (-1, -1, -1)"
    by (simp_all add: single_facts init_facts default_handler_def)
  from TD[THEN conjunct2, THEN conjunct2, THEN conjunct2, THEN conjunct2, THEN conjunct2] cD
  have d: "0 \<in> set (snd (lgD ! 0)) \<and>
      (\<forall>k. 0 < k \<and> k < Suc (Suc (Suc 0)) \<longrightarrow> 0 \<notin> set (snd (lgD ! k)))"
    by simp
  then have d0: "0 \<in> set (snd (lgD ! 0))" by blast
  from d have "0 < (1 :: nat) \<and> (1 :: nat) < Suc (Suc (Suc 0)) \<longrightarrow> 0 \<notin> set (snd (lgD ! 1))"
    by blast
  then have d1: "0 \<notin> set (snd (lgD ! 1))" by simp
  from d have "0 < (2 :: nat) \<and> (2 :: nat) < Suc (Suc (Suc 0)) \<longrightarrow> 0 \<notin> set (snd (lgD ! 2))"
    by blast
  then have d2: "0 \<notin> set (snd (lgD ! 2))" by simp
  from run1 len1 w1 i1 have e1: "\<exists>lg st'.
        evaluate_scheduled_run no_files [(1 / 10, 1 / 2, 1), (2 / 10, 1, 2)] ?S1
          = Some (Inr (lg, st')) \<and> length lg = 2 \<and>
        \<not> wall_up (hstore (fst (lg ! 0)) 0) (1 / 10) \<and> \<not> wall_up (hstore (fst (lg ! 1)) 0) (2 / 10) \<and>
        \<not> iter_up (hstore (fst (lg ! 0)) 0) 1 \<and> \<not> iter_up (hstore (fst (lg ! 1)) 0) 2"
    by blast
  from runD lenD d0 d1 d2 have e2: "\<exists>lg st'.
        evaluate_scheduled_run no_files [(0, 0, 0), (1, 1, 1), (2, 2, 2)] ?D = Some (Inr (lg, st')) \<and>
        length lg = 3 \<and> 0 \<in> set (snd (lg ! 0)) \<and> 0 \<notin> set (snd (lg ! 1)) \<and>
        0 \<notin> set (snd (lg ! 2))"
    by blast
  from h wu f ev z e1 e2 show ?thesis by (intro conjI)
qed

theorem default_handler_fires_at_first_call:
  "firing_log 0 (evaluate_scheduled_run no_files [(0, 0, 0)]
       (single_handler_state (default_handler (SystemHandler True))))
     = Some (Inr ([((-1, -1, -1), True)], (0, 0, 0)))"
proof -
  let ?D = "single_handler_state (default_handler (SystemHandler True))"
  have "idle_state ?D" by (simp add: idle_single default_handler_def)
  from idle_run[OF this] obtain r where
    run: "evaluate_scheduled_run no_files [(0, 0, 0)] ?D = Some (Inr r)" by blast
  show ?thesis
    by (rule one_call[OF run]) (simp_all add: single_facts init_facts default_handler_def)
qed

end
